theory Spec2Isabelle
  imports Complex_Main
begin

section \<open>Data model\<close>

text \<open>
  A debate is the JSON object read by every script: a dictionary \<open>nodes\<close> from argument id
  to a node and a dictionary \<open>edges\<close> from the source argument id to its single outgoing
  edge. Python dictionaries keep insertion order and the code iterates over them, so both
  are association lists (in iteration order). Weights are Python floats, modelled by the
  real numbers they stand for. A weight that a node may lack (the keys
  \<open>initial_weight\<close> and \<open>final_weight\<close>) is an option, and so is the key \<open>relation\<close>,
  which the code reads with \<open>e.get("relation", 0.0)\<close>.
\<close>

datatype error = KeyError | NetworkXUnfeasible | OverflowError

text \<open>
  The largest float is \<open>2^1024 - 2^971\<close>; a value of \<open>2^1024 - 2^970\<close> or more rounds
  beyond it. Where Python raises \<open>OverflowError\<close> at such a value (the conversion of an
  int to a float, a float power), the model has that error. The rounding of the float
  operations is not modelled.
\<close>

definition float_limit :: real where
  "float_limit = 2 ^ 1024 - 2 ^ 970"

record node =
  initial_weight :: "real option"
  final_weight :: "real option"

record edge =
  successor_id :: string
  relation :: "real option"

record debate =
  nodes :: "(string \<times> node) list"
  edges :: "(string \<times> edge) list"

definition rel_of :: "edge \<Rightarrow> real" where
  "rel_of e = (case relation e of None \<Rightarrow> 0 | Some r \<Rightarrow> r)"

section \<open>Vote aggregation (compute_initial_weights_and_graphs.py)\<close>








section \<open>QEM semantics (compute_final_weights_and_graphs_QEM.py)\<close>

definition calculate_energy ::
  "string \<Rightarrow> (string \<rightharpoonup> string list) \<Rightarrow> (string \<rightharpoonup> string list) \<Rightarrow> (string \<rightharpoonup> real) \<Rightarrow> real" where
  "calculate_energy n supp att final_acc =
     sum_list (map (\<lambda>s. case final_acc s of None \<Rightarrow> 0 | Some v \<Rightarrow> v)
                   (case supp n of None \<Rightarrow> [] | Some xs \<Rightarrow> xs))
   - sum_list (map (\<lambda>a. case final_acc a of None \<Rightarrow> 0 | Some v \<Rightarrow> v)
                   (case att n of None \<Rightarrow> [] | Some xs \<Rightarrow> xs))"

definition h :: "real \<Rightarrow> real" where
  "h x = (max x 0)\<^sup>2 / (1 + (max x 0)\<^sup>2)"

definition qem_update :: "real \<Rightarrow> real \<Rightarrow> real" where
  "qem_update w0 e = (if e > 0 then w0 + (1 - w0) * h e else w0 - w0 * h (- e))"

text \<open>\<open>w_init[n]\<close> raises \<open>KeyError\<close> when \<open>n\<close> has no initial weight.\<close>

definition qem_accept ::
  "string \<Rightarrow> (string \<rightharpoonup> string list) \<Rightarrow> (string \<rightharpoonup> string list) \<Rightarrow> (string \<rightharpoonup> real)
     \<Rightarrow> (string \<rightharpoonup> real) \<Rightarrow> error + real" where
  "qem_accept n supp att final_acc w_init =
     (if supp n = None \<and> att n = None
      then (case w_init n of None \<Rightarrow> Inl KeyError | Some w \<Rightarrow> Inr w)
      else (let e = calculate_energy n supp att final_acc
            in case w_init n of None \<Rightarrow> Inl KeyError
               | Some w0 \<Rightarrow> Inr (qem_update w0 e)))"

subsection \<open>The float range\<close>

text \<open>
  The square \<open>max(x, 0) ** 2\<close> of \<open>h\<close> is a float power: it raises \<open>OverflowError\<close> when
  its value would round beyond the largest float, that is when the square is
  \<open>float_limit\<close> or more (\<open>x\<close> above about \<open>1.34e154\<close>); on numpy floats the square is
  then \<open>inf\<close> and \<open>h\<close> gives \<open>nan\<close>, as it does for an energy that is itself the float
  \<open>inf\<close>. Either way the update yields no weight. \<open>h_float\<close>,
  \<open>qem_update_float\<close> and \<open>qem_accept_float\<close> are \<open>h\<close>, the update and \<open>qem_accept\<close> with
  this range check written out; below the limit they are \<open>h\<close>, \<open>qem_update\<close> and
  \<open>qem_accept\<close>. The propagations are written with \<open>qem_accept\<close>: on weights in \<open>[0,1]\<close>
  the energy of a node is at most the number of its supporters and attackers, far below
  the limit.
\<close>

definition h_float :: "real \<Rightarrow> error + real" where
  "h_float x =
     (if float_limit \<le> (max x 0)\<^sup>2 then Inl OverflowError
      else Inr ((max x 0)\<^sup>2 / (1 + (max x 0)\<^sup>2)))"

definition qem_update_float :: "real \<Rightarrow> real \<Rightarrow> error + real" where
  "qem_update_float w0 e =
     (if e > 0
      then (case h_float e of Inl err \<Rightarrow> Inl err | Inr v \<Rightarrow> Inr (w0 + (1 - w0) * v))
      else (case h_float (- e) of Inl err \<Rightarrow> Inl err | Inr v \<Rightarrow> Inr (w0 - w0 * v)))"

definition qem_accept_float ::
  "string \<Rightarrow> (string \<rightharpoonup> string list) \<Rightarrow> (string \<rightharpoonup> string list) \<Rightarrow> (string \<rightharpoonup> real)
     \<Rightarrow> (string \<rightharpoonup> real) \<Rightarrow> error + real" where
  "qem_accept_float n supp att final_acc w_init =
     (if supp n = None \<and> att n = None
      then (case w_init n of None \<Rightarrow> Inl KeyError | Some w \<Rightarrow> Inr w)
      else (let e = calculate_energy n supp att final_acc
            in case w_init n of None \<Rightarrow> Inl KeyError
               | Some w0 \<Rightarrow> qem_update_float w0 e))"

text \<open>
  The initial weights \<open>{nid: nd["initial_weight"] for nid, nd in nodes.items()}\<close>; the
  comprehension raises \<open>KeyError\<close> at a node without the key.
\<close>

definition has_initial_weights :: "(string \<times> node) list \<Rightarrow> bool" where
  "has_initial_weights ns = list_all (\<lambda>(nid, nd). initial_weight nd \<noteq> None) ns"

definition initial_weights :: "(string \<times> node) list \<Rightarrow> error + (string \<rightharpoonup> real)" where
  "initial_weights ns =
     (if has_initial_weights ns
      then Inr (\<lambda>nid. Option.bind (map_of ns nid) initial_weight)
      else Inl KeyError)"

subsection \<open>Supporters, attackers and the directed graph\<close>

text \<open>
  \<open>nx.DiGraph\<close>: the nodes in the order \<open>add_edge\<close> first met them, and the edges.
\<close>

record digraph =
  g_nodes :: "string list"
  g_edges :: "(string \<times> string) list"

definition add_node :: "string \<Rightarrow> string list \<Rightarrow> string list" where
  "add_node v vs = (if v \<in> set vs then vs else vs @ [v])"

definition add_edge :: "string \<Rightarrow> string \<Rightarrow> digraph \<Rightarrow> digraph" where
  "add_edge u v G =
     \<lparr>g_nodes = add_node v (add_node u (g_nodes G)),
      g_edges = (if (u, v) \<in> set (g_edges G) then g_edges G else g_edges G @ [(u, v)])\<rparr>"

definition setdefault_append ::
  "(string \<rightharpoonup> string list) \<Rightarrow> string \<Rightarrow> string \<Rightarrow> (string \<rightharpoonup> string list)" where
  "setdefault_append m k v = m(k \<mapsto> (case m k of None \<Rightarrow> [] | Some xs \<Rightarrow> xs) @ [v])"

type_synonym relations = "(string \<rightharpoonup> string list) \<times> (string \<rightharpoonup> string list) \<times> digraph"

definition relation_step :: "string \<times> edge \<Rightarrow> relations \<Rightarrow> relations" where
  "relation_step se st =
     (case (se, st) of ((src_id, e), (supp, att, G)) \<Rightarrow>
        (let dst_id = successor_id e; rel = rel_of e; G' = add_edge src_id dst_id G
         in if rel > 0 then (setdefault_append supp dst_id src_id, att, G')
            else if rel < 0 then (supp, setdefault_append att dst_id src_id, G')
            else (supp, att, G')))"

definition build_relations :: "(string \<times> edge) list \<Rightarrow> relations" where
  "build_relations es = fold relation_step es (Map.empty, Map.empty, \<lparr>g_nodes = [], g_edges = []\<rparr>)"

subsection \<open>Topological sorting\<close>

text \<open>
  \<open>nx.topological_sort\<close> is library code: Kahn's algorithm by generations. A generation
  is the list of nodes that no edge from a remaining node enters; it is removed and emitted,
  and the next one is computed. When no such node is left while nodes remain, the graph has
  a cycle and \<open>NetworkXUnfeasible\<close> is raised (here \<open>None\<close>). The order of the nodes inside
  one generation has no influence on the weights, since a node only reads the weights of
  nodes of earlier generations.
\<close>

definition zero_indegree :: "(string \<times> string) list \<Rightarrow> string list \<Rightarrow> string list" where
  "zero_indegree es remaining =
     filter (\<lambda>v. \<not> list_ex (\<lambda>(u, w). w = v \<and> u \<in> set remaining) es) remaining"

function topo_loop :: "(string \<times> string) list \<Rightarrow> string list \<Rightarrow> string list \<Rightarrow> string list option" where
  "topo_loop es remaining acc =
     (if zero_indegree es remaining = []
      then (if remaining = [] then Some acc else None)
      else topo_loop es (filter (\<lambda>v. v \<notin> set (zero_indegree es remaining)) remaining)
                     (acc @ zero_indegree es remaining))"
  by pat_completeness auto
termination
proof (relation "measure (\<lambda>(es, remaining, acc). length remaining)")
  show "wf (measure (\<lambda>(es, remaining, acc). length remaining))" by simp
next
  fix es :: "(string \<times> string) list" and remaining acc :: "string list"
  assume nz: "zero_indegree es remaining \<noteq> []"
  then obtain v where v: "v \<in> set (zero_indegree es remaining)"
    by (cases "zero_indegree es remaining") auto
  then have "v \<in> set remaining" by (simp add: zero_indegree_def)
  with v have "length (filter (\<lambda>v. v \<notin> set (zero_indegree es remaining)) remaining) < length remaining"
    by (intro length_filter_less[of v]) auto
  then show "((es, filter (\<lambda>v. v \<notin> set (zero_indegree es remaining)) remaining,
               acc @ zero_indegree es remaining), (es, remaining, acc))
             \<in> measure (\<lambda>(es, remaining, acc). length remaining)"
    by simp
qed

declare topo_loop.simps [simp del]

definition topological_sort :: "digraph \<Rightarrow> string list option" where
  "topological_sort G = topo_loop (g_edges G) (g_nodes G) []"

text \<open>The graph that both propagations build from the edges.\<close>

definition graph_of :: "(string \<times> edge) list \<Rightarrow> digraph" where
  "graph_of es = snd (snd (build_relations es))"

text \<open>
  A cycle of the edge set: a non-empty list of arguments, each with an edge to the next
  and the last with an edge to the first.
\<close>

definition edge_between :: "(string \<times> edge) list \<Rightarrow> string \<Rightarrow> string \<Rightarrow> bool" where
  "edge_between es u v = list_ex (\<lambda>(src_id, e). src_id = u \<and> successor_id e = v) es"

definition is_cycle :: "(string \<times> edge) list \<Rightarrow> string list \<Rightarrow> bool" where
  "is_cycle es vs = (vs \<noteq> [] \<and> list_all (\<lambda>(u, v). edge_between es u v) (zip vs (rotate1 vs)))"

subsection \<open>Propagation\<close>

fun qem_loop ::
  "string list \<Rightarrow> (string \<rightharpoonup> string list) \<Rightarrow> (string \<rightharpoonup> string list) \<Rightarrow> (string \<rightharpoonup> real)
     \<Rightarrow> (string \<rightharpoonup> real) \<Rightarrow> error + (string \<rightharpoonup> real)" where
  "qem_loop [] supp att w_init final_acc = Inr final_acc"
| "qem_loop (n # ns) supp att w_init final_acc =
     (case qem_accept n supp att final_acc w_init of
        Inl err \<Rightarrow> Inl err
      | Inr v \<Rightarrow> qem_loop ns supp att w_init (final_acc(n \<mapsto> v)))"

text \<open>
  \<open>apply_qem_to_restriction\<close> (the same text in generate_constructive_explanations.py and
  generate_destructive_explanations.py). A cycle is caught and the nodes are then taken in
  the order of \<open>nodes.keys()\<close>.
\<close>

definition apply_qem_to_restriction :: "debate \<Rightarrow> error + (string \<rightharpoonup> real)" where
  "apply_qem_to_restriction fw =
     (if nodes fw = [] then Inr Map.empty
      else case initial_weights (nodes fw) of
        Inl err \<Rightarrow> Inl err
      | Inr w_init \<Rightarrow>
          (case build_relations (edges fw) of (supp, att, G) \<Rightarrow>
             if g_edges G = [] then Inr (w_init |` set (map fst (nodes fw)))
             else (let topo = (case topological_sort G of
                                 None \<Rightarrow> map fst (nodes fw)
                               | Some order \<Rightarrow> order)
                   in qem_loop topo supp att w_init Map.empty)))"

text \<open>
  \<open>enrich_with_final\<close> without its file input and output: the loaded debate comes in, the
  debate with \<open>final_weight\<close> stored in its nodes goes out. The exception of
  \<open>nx.topological_sort\<close> is not caught here.
\<close>

definition set_final_weight :: "string \<Rightarrow> real \<Rightarrow> (string \<times> node) list \<Rightarrow> (string \<times> node) list" where
  "set_final_weight n v ns =
     map (\<lambda>(nid, nd). if nid = n then (nid, nd\<lparr>final_weight := Some v\<rparr>) else (nid, nd)) ns"

fun enrich_loop ::
  "string list \<Rightarrow> (string \<rightharpoonup> string list) \<Rightarrow> (string \<rightharpoonup> string list) \<Rightarrow> (string \<rightharpoonup> real)
     \<Rightarrow> (string \<rightharpoonup> real) \<Rightarrow> (string \<times> node) list \<Rightarrow> error + (string \<times> node) list" where
  "enrich_loop [] supp att w_init final_acc ns = Inr ns"
| "enrich_loop (n # topo) supp att w_init final_acc ns =
     (case qem_accept n supp att final_acc w_init of
        Inl err \<Rightarrow> Inl err
      | Inr v \<Rightarrow>
          if n \<in> set (map fst ns)
          then enrich_loop topo supp att w_init (final_acc(n \<mapsto> v)) (set_final_weight n v ns)
          else Inl KeyError)"

definition enrich_with_final :: "debate \<Rightarrow> error + debate" where
  "enrich_with_final data =
     (case initial_weights (nodes data) of
        Inl err \<Rightarrow> Inl err
      | Inr w_init \<Rightarrow>
          (case build_relations (edges data) of (supp, att, G) \<Rightarrow>
             (case topological_sort G of
                None \<Rightarrow> Inl NetworkXUnfeasible
              | Some topo \<Rightarrow>
                  (case enrich_loop topo supp att w_init Map.empty (nodes data) of
                     Inl err \<Rightarrow> Inl err
                   | Inr ns \<Rightarrow> Inr (data\<lparr>nodes := ns\<rparr>)))))"

text \<open>Weights in the unit interval: of a mapping, and of the initial weights of nodes.\<close>

definition unit_weights :: "(string \<rightharpoonup> real) \<Rightarrow> bool" where
  "unit_weights m = (\<forall>k v. m k = Some v \<longrightarrow> 0 \<le> v \<and> v \<le> 1)"

definition initial_weights_in_unit :: "(string \<times> node) list \<Rightarrow> bool" where
  "initial_weights_in_unit ns =
     list_all (\<lambda>(nid, nd). case initial_weight nd of None \<Rightarrow> True | Some w \<Rightarrow> 0 \<le> w \<and> w \<le> 1) ns"

text \<open>Reading one weight out of a result, the error kept.\<close>

definition stored_final :: "error + debate \<Rightarrow> string \<Rightarrow> error + real option" where
  "stored_final r nid =
     (case r of Inl err \<Rightarrow> Inl err
      | Inr d \<Rightarrow> Inr (Option.bind (map_of (nodes d) nid) final_weight))"

definition weight_at :: "error + (string \<rightharpoonup> real) \<Rightarrow> string \<Rightarrow> error + real option" where
  "weight_at r nid = (case r of Inl err \<Rightarrow> Inl err | Inr m \<Rightarrow> Inr (m nid))"

section \<open>Restrictions (generate_constructive_explanations.py, generate_destructive_explanations.py)\<close>

text \<open>
  A dictionary built by successive assignments \<open>d[k] = v\<close>: a new key goes to the end, a
  key already present keeps its place and takes the new value.
\<close>

definition dict_set :: "'k \<Rightarrow> 'v \<Rightarrow> ('k \<times> 'v) list \<Rightarrow> ('k \<times> 'v) list" where
  "dict_set k v d =
     (if k \<in> set (map fst d) then map (\<lambda>kv. if fst kv = k then (k, v) else kv) d
      else d @ [(k, v)])"

definition dict_of_items :: "('k \<times> 'v) list \<Rightarrow> ('k \<times> 'v) list" where
  "dict_of_items kvs = fold (\<lambda>(k, v) d. dict_set k v d) kvs []"

text \<open>The items of the comprehension
  \<open>{arg_id: nodes[arg_id] for arg_id in args_subset if arg_id in nodes}\<close>, in order.\<close>

definition restricted_items :: "(string \<times> node) list \<Rightarrow> string list \<Rightarrow> (string \<times> node) list" where
  "restricted_items ns args_subset =
     concat (map (\<lambda>arg_id. case map_of ns arg_id of None \<Rightarrow> [] | Some nd \<Rightarrow> [(arg_id, nd)])
                 args_subset)"

definition create_restriction :: "debate \<Rightarrow> string list \<Rightarrow> debate" where
  "create_restriction debate_data args_subset =
     (if args_subset = [] then \<lparr>nodes = [], edges = []\<rparr>
      else
        \<lparr>nodes = dict_of_items (restricted_items (nodes debate_data) args_subset),
         edges = filter (\<lambda>(src_id, edge_data).
                           src_id \<in> set args_subset \<and> successor_id edge_data \<in> set args_subset)
                        (edges debate_data)\<rparr>)"

section \<open>Significance and direction\<close>

text \<open>\<open>is_significant\<close> (identify_branches.py): \<open>argument.get('final_weight', 0.0) != 0.0\<close>.\<close>

definition is_significant :: "node \<Rightarrow> bool" where
  "is_significant argument = ((case final_weight argument of None \<Rightarrow> 0 | Some w \<Rightarrow> w) \<noteq> 0)"

text \<open>
  \<open>determine_direction\<close> (generate_branch_rankings.py): a target that is not a node is
  read as the empty dictionary, an absent weight as \<open>0.0\<close>.
\<close>

definition determine_direction :: "string \<Rightarrow> (string \<times> node) list \<Rightarrow> string" where
  "determine_direction target_id ns =
     (let target_node = (case map_of ns target_id of
                           None \<Rightarrow> \<lparr>initial_weight = None, final_weight = None\<rparr>
                         | Some nd \<Rightarrow> nd);
          initial = (case initial_weight target_node of None \<Rightarrow> 0 | Some w \<Rightarrow> w);
          final = (case final_weight target_node of None \<Rightarrow> 0 | Some w \<Rightarrow> w)
      in if final > initial then ''strengthening''
         else if final < initial then ''weakening''
         else ''unchanged'')"

section \<open>Explanation search\<close>

record category_data =
  branches_abv :: "string list"
  branches :: "string list list"
  ranking_abv :: "string list"
  ranking :: "string list list"

record rankings_data =
  debate_id :: string
  t_id :: string
  direction :: string
  rankings :: "string \<rightharpoonup> (string \<rightharpoonup> category_data)"

record explanation =
  success :: bool
  explanation_abv :: "string list list"
  explanation_arg :: "string list list"

text \<open>\<open>rankings_data['rankings'].get(heuristic, {})\<close> and \<open>heuristic_data.get(category, {})\<close>,
  whose fields are then read with the default \<open>[]\<close>.\<close>

definition heuristic_data_of :: "rankings_data \<Rightarrow> string \<Rightarrow> (string \<rightharpoonup> category_data)" where
  "heuristic_data_of r heuristic = (case rankings r heuristic of None \<Rightarrow> Map.empty | Some hdata \<Rightarrow> hdata)"

definition category_of :: "(string \<rightharpoonup> category_data) \<Rightarrow> string \<Rightarrow> category_data" where
  "category_of hdata name =
     (case hdata name of
        None \<Rightarrow> \<lparr>branches_abv = [], branches = [], ranking_abv = [], ranking = []\<rparr>
      | Some c \<Rightarrow> c)"

definition get_branch_arguments :: "string list list \<Rightarrow> string list" where
  "get_branch_arguments branches_data = concat branches_data"

definition no_explanation :: explanation where
  "no_explanation = \<lparr>success = False, explanation_abv = [], explanation_arg = []\<rparr>"

text \<open>
  One test of the search: restrict the debate to \<open>current_args\<close>, propagate, read the
  target's weight with \<open>final_weights.get(target_id, w0_target)\<close> and compare it with the
  target's initial weight (\<open>cmp\<close> is \<open>>\<close> when strengthening, \<open><\<close> when weakening).
  The constructive search is written over the propagation it calls, \<open>propagate\<close>, so that
  what is proved of its protocol holds whatever the arithmetic of the propagation is; the
  code calls \<open>apply_qem_to_restriction\<close>.
\<close>

definition target_satisfied_with ::
  "(debate \<Rightarrow> error + (string \<rightharpoonup> real)) \<Rightarrow> (real \<Rightarrow> real \<Rightarrow> bool) \<Rightarrow> debate \<Rightarrow> string \<Rightarrow> real
     \<Rightarrow> string list \<Rightarrow> error + bool" where
  "target_satisfied_with propagate cmp debate_data target_id w0_target current_args =
     (case propagate (create_restriction debate_data current_args) of
        Inl err \<Rightarrow> Inl err
      | Inr final_weights \<Rightarrow>
          (let w1_target = (case final_weights target_id of None \<Rightarrow> w0_target | Some w \<Rightarrow> w)
           in Inr (cmp w1_target w0_target)))"

definition target_satisfied ::
  "(real \<Rightarrow> real \<Rightarrow> bool) \<Rightarrow> debate \<Rightarrow> string \<Rightarrow> real \<Rightarrow> string list \<Rightarrow> error + bool" where
  "target_satisfied cmp debate_data target_id w0_target current_args =
     target_satisfied_with apply_qem_to_restriction cmp debate_data target_id w0_target
       current_args"

text \<open>
  The loop \<open>for i, branch_args in enumerate(ranking)\<close>: the branch is added to the
  arguments added so far, its abbreviation too when \<open>ranking_abv\<close> has one at index \<open>i\<close>,
  and the restriction to \<open>current_args\<close> is tested. The loop returns at the first test
  that holds. The last component lists the argument lists that were restricted to and
  propagated, in order.
\<close>

fun add_branches ::
  "(string list \<Rightarrow> error + bool) \<Rightarrow> (string list \<Rightarrow> string list) \<Rightarrow> string list list
     \<Rightarrow> string list \<Rightarrow> string list \<Rightarrow> string list \<Rightarrow> string list list
     \<Rightarrow> error + (bool \<times> string list \<times> string list \<times> string list list)" where
  "add_branches test mk_args [] abvs added_args added_abv tested =
     Inr (False, added_args, added_abv, tested)"
| "add_branches test mk_args (branch_args # rest) abvs added_args added_abv tested =
     (let added_args' = added_args @ branch_args;
          added_abv' = added_abv @ take 1 abvs;
          current_args = mk_args added_args'
      in case test current_args of
           Inl err \<Rightarrow> Inl err
         | Inr ok \<Rightarrow>
             if ok then Inr (True, added_args', added_abv', tested @ [current_args])
             else add_branches test mk_args rest (drop 1 abvs) added_args' added_abv'
                    (tested @ [current_args]))"

text \<open>
  The two branches of \<open>generate_constructive_explanation\<close> have the same text up to the
  comparison and the three categories read: the base category (unweakened branches of the
  other side), the category added first and the weakening category added second.
\<close>

definition constructive_search_with ::
  "(debate \<Rightarrow> error + (string \<rightharpoonup> real)) \<Rightarrow> (real \<Rightarrow> real \<Rightarrow> bool)
     \<Rightarrow> category_data \<Rightarrow> category_data \<Rightarrow> category_data
     \<Rightarrow> debate \<Rightarrow> string \<Rightarrow> real \<Rightarrow> error + (explanation \<times> string list list)" where
  "constructive_search_with propagate cmp unweakened first_cat second_cat debate_data target_id
     w0_target =
     (let base_args = get_branch_arguments (branches unweakened);
          current_args = base_args @ [target_id];
          test = target_satisfied_with propagate cmp debate_data target_id w0_target
      in case test current_args of
           Inl err \<Rightarrow> Inl err
         | Inr ok \<Rightarrow>
             if ok
             then Inr (\<lparr>success = True,
                        explanation_abv = [branches_abv unweakened, []],
                        explanation_arg = [base_args, []]\<rparr>, [current_args])
             else
               (case add_branches test (\<lambda>added. base_args @ added @ [target_id])
                       (ranking first_cat) (ranking_abv first_cat) [] [] [current_args] of
                  Inl err \<Rightarrow> Inl err
                | Inr (found, added_args, added_abv, tested) \<Rightarrow>
                    if found
                    then Inr (\<lparr>success = True,
                               explanation_abv = [branches_abv unweakened, added_abv],
                               explanation_arg = [base_args, added_args]\<rparr>, tested)
                    else
                      (case add_branches test
                              (\<lambda>added. base_args @ added_args @ added @ [target_id])
                              (ranking second_cat) (ranking_abv second_cat) [] [] tested of
                         Inl err \<Rightarrow> Inl err
                       | Inr (found2, added_args2, added_abv2, tested2) \<Rightarrow>
                           if found2
                           then Inr (\<lparr>success = True,
                                      explanation_abv =
                                        [branches_abv unweakened, added_abv, added_abv2],
                                      explanation_arg = [base_args, added_args, added_args2]\<rparr>,
                                     tested2)
                           else Inr (no_explanation, tested2))))"

definition generate_constructive_explanation_run_with ::
  "(debate \<Rightarrow> error + (string \<rightharpoonup> real)) \<Rightarrow> rankings_data \<Rightarrow> debate \<Rightarrow> string
     \<Rightarrow> error + (explanation \<times> string list list)" where
  "generate_constructive_explanation_run_with propagate rankings_data debate_data heuristic =
     (let target_id = t_id rankings_data in
      case map_of (nodes debate_data) target_id of
        None \<Rightarrow> Inr (no_explanation, [])
      | Some target_node \<Rightarrow>
          (case initial_weight target_node of
             None \<Rightarrow> Inl KeyError
           | Some w0_target \<Rightarrow>
               (let heuristic_data = heuristic_data_of rankings_data heuristic
                in if direction rankings_data = ''strengthening''
                   then constructive_search_with propagate (\<lambda>w1 w0. w1 > w0)
                          (category_of heuristic_data ''unweakened con-branches'')
                          (category_of heuristic_data ''pro-branches'')
                          (category_of heuristic_data ''con-weakening branches'')
                          debate_data target_id w0_target
                   else constructive_search_with propagate (\<lambda>w1 w0. w1 < w0)
                          (category_of heuristic_data ''unweakened pro-branches'')
                          (category_of heuristic_data ''con-branches'')
                          (category_of heuristic_data ''pro-weakening branches'')
                          debate_data target_id w0_target)))"

definition generate_constructive_explanation_with ::
  "(debate \<Rightarrow> error + (string \<rightharpoonup> real)) \<Rightarrow> rankings_data \<Rightarrow> debate \<Rightarrow> string
     \<Rightarrow> error + explanation" where
  "generate_constructive_explanation_with propagate rankings_data debate_data heuristic =
     map_sum id fst
       (generate_constructive_explanation_run_with propagate rankings_data debate_data heuristic)"

text \<open>The search as the code runs it, over \<open>apply_qem_to_restriction\<close>.\<close>

definition generate_constructive_explanation_run ::
  "rankings_data \<Rightarrow> debate \<Rightarrow> string \<Rightarrow> error + (explanation \<times> string list list)" where
  "generate_constructive_explanation_run rankings_data debate_data heuristic =
     generate_constructive_explanation_run_with apply_qem_to_restriction rankings_data
       debate_data heuristic"

definition generate_constructive_explanation ::
  "rankings_data \<Rightarrow> debate \<Rightarrow> string \<Rightarrow> error + explanation" where
  "generate_constructive_explanation rankings_data debate_data heuristic =
     map_sum id fst (generate_constructive_explanation_run rankings_data debate_data heuristic)"

text \<open>
  \<open>generate_destructive_explanation\<close>: the base holds the unweakened branches and all the
  weakening branches of one side and the target; the branches of the other side are added.
\<close>

definition destructive_search ::
  "(real \<Rightarrow> real \<Rightarrow> bool) \<Rightarrow> category_data \<Rightarrow> category_data \<Rightarrow> category_data
     \<Rightarrow> debate \<Rightarrow> string \<Rightarrow> real \<Rightarrow> error + (explanation \<times> string list list)" where
  "destructive_search cmp unweakened weakening added_cat debate_data target_id w0_target =
     (let unweakened_args = get_branch_arguments (branches unweakened);
          weakening_args = get_branch_arguments (branches weakening);
          base_args = unweakened_args @ weakening_args @ [target_id];
          test = target_satisfied cmp debate_data target_id w0_target
      in case test base_args of
           Inl err \<Rightarrow> Inl err
         | Inr ok \<Rightarrow>
             if ok
             then Inr (\<lparr>success = True,
                        explanation_abv = [branches_abv unweakened, branches_abv weakening, []],
                        explanation_arg = [unweakened_args, weakening_args, []]\<rparr>, [base_args])
             else
               (case add_branches test (\<lambda>added. base_args @ added)
                       (ranking added_cat) (ranking_abv added_cat) [] [] [base_args] of
                  Inl err \<Rightarrow> Inl err
                | Inr (found, added_args, added_abv, tested) \<Rightarrow>
                    if found
                    then Inr (\<lparr>success = True,
                               explanation_abv =
                                 [branches_abv unweakened, branches_abv weakening, added_abv],
                               explanation_arg = [unweakened_args, weakening_args, added_args]\<rparr>,
                              tested)
                    else Inr (no_explanation, tested)))"

definition generate_destructive_explanation_run ::
  "rankings_data \<Rightarrow> debate \<Rightarrow> string \<Rightarrow> error + (explanation \<times> string list list)" where
  "generate_destructive_explanation_run rankings_data debate_data heuristic =
     (let target_id = t_id rankings_data in
      case map_of (nodes debate_data) target_id of
        None \<Rightarrow> Inr (no_explanation, [])
      | Some target_node \<Rightarrow>
          (case initial_weight target_node of
             None \<Rightarrow> Inl KeyError
           | Some w0_target \<Rightarrow>
               (let heuristic_data = heuristic_data_of rankings_data heuristic
                in if direction rankings_data = ''strengthening''
                   then destructive_search (\<lambda>w1 w0. w1 > w0)
                          (category_of heuristic_data ''unweakened con-branches'')
                          (category_of heuristic_data ''con-weakening branches'')
                          (category_of heuristic_data ''pro-branches'')
                          debate_data target_id w0_target
                   else destructive_search (\<lambda>w1 w0. w1 < w0)
                          (category_of heuristic_data ''unweakened pro-branches'')
                          (category_of heuristic_data ''pro-weakening branches'')
                          (category_of heuristic_data ''con-branches'')
                          debate_data target_id w0_target)))"

definition generate_destructive_explanation ::
  "rankings_data \<Rightarrow> debate \<Rightarrow> string \<Rightarrow> error + explanation" where
  "generate_destructive_explanation rankings_data debate_data heuristic =
     map_sum id fst (generate_destructive_explanation_run rankings_data debate_data heuristic)"

section \<open>Branch identification (identify_branches.py)\<close>

definition is_significant_root :: "(string \<times> node) list \<Rightarrow> string \<Rightarrow> bool" where
  "is_significant_root ns arg_id =
     (case map_of ns arg_id of None \<Rightarrow> False | Some nd \<Rightarrow> is_significant nd)"

text \<open>The significant sources of the edges into the target with a positive relation
  (\<open>positive = True\<close>) or a negative one.\<close>

definition significant_relatives :: "bool \<Rightarrow> debate \<Rightarrow> string \<Rightarrow> string list" where
  "significant_relatives positive d target =
     map fst (filter (\<lambda>(edge_id, edge_data).
                        successor_id edge_data = target
                        \<and> is_significant_root (nodes d) edge_id
                        \<and> (if positive then rel_of edge_data > 0 else rel_of edge_data < 0))
                     (edges d))"

text \<open>The edge ids pushed on the stack for \<open>current\<close>: the sources of the edges into
  \<open>current\<close> whose relation is not zero, in the order of the edges.\<close>

definition predecessors :: "(string \<times> edge) list \<Rightarrow> string \<Rightarrow> string list" where
  "predecessors es current =
     map fst (filter (\<lambda>(edge_id, edge_data).
                        successor_id edge_data = current \<and> rel_of edge_data \<noteq> 0) es)"

text \<open>\<open>traverse_full_branch\<close>: the stack's top is the last element (\<open>stack.pop()\<close>).\<close>

function full_branch_loop ::
  "(string \<times> edge) list \<Rightarrow> string list \<Rightarrow> string set \<Rightarrow> string list \<Rightarrow> string list" where
  "full_branch_loop es stack visited branch =
     (if stack = [] then branch
      else if last stack \<in> visited then full_branch_loop es (butlast stack) visited branch
      else full_branch_loop es (butlast stack @ predecessors es (last stack))
             (insert (last stack) visited) (branch @ [last stack]))"
  by pat_completeness auto

text \<open>The arguments that may still be visited: those of the universe or of the pending
  list that are not yet visited. Each traversal below visits one of them, or drops an
  element of its pending list.\<close>

definition unvisited :: "string set \<Rightarrow> string list \<Rightarrow> string set \<Rightarrow> string set" where
  "unvisited universe pending visited = (universe \<union> set pending) - visited"

termination full_branch_loop
proof (relation "measures [\<lambda>(es, stack, visited, branch). card (unvisited (set (map fst es)) stack visited),
                            \<lambda>(es, stack, visited, branch). length stack]")
  show "wf (measures [\<lambda>(es, stack, visited, branch). card (unvisited (set (map fst es)) stack visited),
                            \<lambda>(es, stack, visited, branch). length stack])"
    by simp
next
  fix es :: "(string \<times> edge) list" and stack :: "string list" and visited :: "string set"
    and branch :: "string list"
  assume ne: "stack \<noteq> []" and "last stack \<in> visited"
  have "set (butlast stack) \<subseteq> set stack" by (auto dest: in_set_butlastD)
  then have "card (unvisited (set (map fst es)) (butlast stack) visited)
             \<le> card (unvisited (set (map fst es)) stack visited)"
    by (intro card_mono) (auto simp: unvisited_def)
  moreover have "length (butlast stack) < length stack" using ne by simp
  ultimately show "((es, butlast stack, visited, branch), (es, stack, visited, branch))
        \<in> measures [\<lambda>(es, stack, visited, branch). card (unvisited (set (map fst es)) stack visited),
                            \<lambda>(es, stack, visited, branch). length stack]"
    by auto
next
  fix es :: "(string \<times> edge) list" and stack :: "string list" and visited :: "string set"
    and branch :: "string list"
  assume ne: "stack \<noteq> []" and nv: "last stack \<notin> visited"
  have "set (butlast stack @ predecessors es (last stack)) \<subseteq> set (map fst es) \<union> set stack"
    by (auto simp: predecessors_def dest: in_set_butlastD)
  then have "unvisited (set (map fst es)) (butlast stack @ predecessors es (last stack))
                     (insert (last stack) visited)
             \<subset> unvisited (set (map fst es)) stack visited"
    using ne nv by (auto simp: unvisited_def)
  then have "card (unvisited (set (map fst es)) (butlast stack @ predecessors es (last stack))
                     (insert (last stack) visited))
             < card (unvisited (set (map fst es)) stack visited)"
    by (intro psubset_card_mono) (auto simp: unvisited_def)
  then show "((es, butlast stack @ predecessors es (last stack), insert (last stack) visited,
               branch @ [last stack]), (es, stack, visited, branch))
        \<in> measures [\<lambda>(es, stack, visited, branch). card (unvisited (set (map fst es)) stack visited),
                            \<lambda>(es, stack, visited, branch). length stack]"
    by auto
qed

declare full_branch_loop.simps [simp del]

definition traverse_full_branch :: "(string \<times> edge) list \<Rightarrow> string \<Rightarrow> string list" where
  "traverse_full_branch es root_id = full_branch_loop es [root_id] {} []"

subsection \<open>Path signs\<close>

text \<open>The queue entries added for \<open>current\<close>: its successor with the sign of the path so
  far times the sign of the relation, when the successor is named, the relation is not
  zero and the successor is a significant node.\<close>

definition significant_successors ::
  "(string \<times> node) list \<Rightarrow> (string \<times> edge) list \<Rightarrow> string \<Rightarrow> int \<Rightarrow> (string \<times> int) list" where
  "significant_successors ns es current path_sign =
     map (\<lambda>(edge_id, edge_data).
            (successor_id edge_data, path_sign * (if rel_of edge_data > 0 then 1 else - 1)))
         (filter (\<lambda>(edge_id, edge_data).
                    edge_id = current \<and> successor_id edge_data \<noteq> []
                    \<and> rel_of edge_data \<noteq> 0
                    \<and> is_significant_root ns (successor_id edge_data)) es)"

function path_sign_loop ::
  "(string \<times> node) list \<Rightarrow> (string \<times> edge) list \<Rightarrow> string \<Rightarrow> (string \<times> int) list
     \<Rightarrow> string set \<Rightarrow> int" where
  "path_sign_loop ns es target_id [] visited = 0"
| "path_sign_loop ns es target_id ((current, path_sign) # queue) visited =
     (if current \<in> visited then path_sign_loop ns es target_id queue visited
      else if current = target_id then path_sign
      else path_sign_loop ns es target_id
             (queue @ significant_successors ns es current path_sign)
             (insert current visited))"
  by pat_completeness auto
termination
proof (relation "measures [\<lambda>(ns, es, target_id, queue, visited).
                              card (unvisited (set (map (\<lambda>(k, e). successor_id e) es))
                                      (map fst queue) visited),
                            \<lambda>(ns, es, target_id, queue, visited). length queue]")
  show "wf (measures [\<lambda>(ns, es, target_id, queue, visited).
                              card (unvisited (set (map (\<lambda>(k, e). successor_id e) es))
                                      (map fst queue) visited),
                            \<lambda>(ns, es, target_id, queue, visited). length queue])"
    by simp
next
  fix ns :: "(string \<times> node) list" and es :: "(string \<times> edge) list" and target_id current :: string
    and path_sign :: int and queue :: "(string \<times> int) list" and visited :: "string set"
  assume "current \<in> visited"
  have "card (unvisited (set (map (\<lambda>(k, e). successor_id e) es)) (map fst queue) visited)
        \<le> card (unvisited (set (map (\<lambda>(k, e). successor_id e) es))
                  (map fst ((current, path_sign) # queue)) visited)"
    by (intro card_mono) (auto simp: unvisited_def)
  then show "((ns, es, target_id, queue, visited),
              (ns, es, target_id, (current, path_sign) # queue, visited))
        \<in> measures [\<lambda>(ns, es, target_id, queue, visited).
                              card (unvisited (set (map (\<lambda>(k, e). successor_id e) es))
                                      (map fst queue) visited),
                            \<lambda>(ns, es, target_id, queue, visited). length queue]"
    by auto
next
  fix ns :: "(string \<times> node) list" and es :: "(string \<times> edge) list" and target_id current :: string
    and path_sign :: int and queue :: "(string \<times> int) list" and visited :: "string set"
  assume nv: "current \<notin> visited"
  have "set (map fst (significant_successors ns es current path_sign))
          \<subseteq> set (map (\<lambda>(k, e). successor_id e) es)"
    by (auto simp: significant_successors_def)
  then have "unvisited (set (map (\<lambda>(k, e). successor_id e) es))
                  (map fst (queue @ significant_successors ns es current path_sign))
                  (insert current visited)
        \<subset> unvisited (set (map (\<lambda>(k, e). successor_id e) es))
                  (map fst ((current, path_sign) # queue)) visited"
    using nv by (auto simp: unvisited_def)
  then have "card (unvisited (set (map (\<lambda>(k, e). successor_id e) es))
                  (map fst (queue @ significant_successors ns es current path_sign))
                  (insert current visited))
        < card (unvisited (set (map (\<lambda>(k, e). successor_id e) es))
                  (map fst ((current, path_sign) # queue)) visited)"
    by (intro psubset_card_mono) (auto simp: unvisited_def)
  then show "((ns, es, target_id, queue @ significant_successors ns es current path_sign,
               insert current visited),
              (ns, es, target_id, (current, path_sign) # queue, visited))
        \<in> measures [\<lambda>(ns, es, target_id, queue, visited).
                              card (unvisited (set (map (\<lambda>(k, e). successor_id e) es))
                                      (map fst queue) visited),
                            \<lambda>(ns, es, target_id, queue, visited). length queue]"
    by auto
qed

declare path_sign_loop.simps [simp del]

definition compute_path_sign_significant_only ::
  "(string \<times> node) list \<Rightarrow> (string \<times> edge) list \<Rightarrow> string \<Rightarrow> string \<Rightarrow> int" where
  "compute_path_sign_significant_only ns es arg_id target_id =
     (if arg_id = target_id then 1
      else if \<not> is_significant_root ns arg_id then 0
      else path_sign_loop ns es target_id [(arg_id, 1)] {})"

definition is_pro_argument :: "debate \<Rightarrow> string \<Rightarrow> string \<Rightarrow> bool" where
  "is_pro_argument d target arg_id =
     (compute_path_sign_significant_only (nodes d) (edges d) arg_id target > 0)"

definition is_con_argument :: "debate \<Rightarrow> string \<Rightarrow> string \<Rightarrow> bool" where
  "is_con_argument d target arg_id =
     (compute_path_sign_significant_only (nodes d) (edges d) arg_id target < 0)"

subsection \<open>Unweakened branches\<close>

text \<open>\<open>traverse_unweakened_branch\<close>: an argument of the expected type is kept and the
  traversal goes on behind it; the root is kept even when it is not of the expected type,
  without going on; any other argument is skipped.\<close>

function unweakened_loop ::
  "debate \<Rightarrow> string \<Rightarrow> string \<Rightarrow> string \<Rightarrow> string list \<Rightarrow> string set \<Rightarrow> string list
     \<Rightarrow> string list" where
  "unweakened_loop d target root_id expected_type stack visited branch =
     (if stack = [] then branch
      else if last stack \<in> visited
      then unweakened_loop d target root_id expected_type (butlast stack) visited branch
      else if expected_type = ''pro'' \<and> is_pro_argument d target (last stack)
      then unweakened_loop d target root_id expected_type
             (butlast stack @ predecessors (edges d) (last stack))
             (insert (last stack) visited) (branch @ [last stack])
      else if expected_type = ''con'' \<and> is_con_argument d target (last stack)
      then unweakened_loop d target root_id expected_type
             (butlast stack @ predecessors (edges d) (last stack))
             (insert (last stack) visited) (branch @ [last stack])
      else if last stack = root_id
      then unweakened_loop d target root_id expected_type (butlast stack)
             (insert (last stack) visited) (branch @ [last stack])
      else unweakened_loop d target root_id expected_type (butlast stack)
             (insert (last stack) visited) branch)"
  by pat_completeness auto
termination
proof (relation "measures [\<lambda>(d, target, root_id, expected_type, stack, visited, branch).
                              card (unvisited (set (map fst (edges d))) stack visited),
                            \<lambda>(d, target, root_id, expected_type, stack, visited, branch).
                              length stack]", goal_cases)
  case 1
  show ?case by simp
next
  case (2 d target root_id expected_type stack visited branch)
  have "card (unvisited (set (map fst (edges d))) (butlast stack) visited)
        \<le> card (unvisited (set (map fst (edges d))) stack visited)"
    by (intro card_mono) (auto simp: unvisited_def dest: in_set_butlastD)
  moreover have "length (butlast stack) < length stack" using 2 by simp
  ultimately show ?case by auto
next
  case (3 d target root_id expected_type stack visited branch)
  then have "unvisited (set (map fst (edges d)))
               (butlast stack @ predecessors (edges d) (last stack)) (insert (last stack) visited)
             \<subset> unvisited (set (map fst (edges d))) stack visited"
    by (auto simp: unvisited_def predecessors_def dest: in_set_butlastD)
  then have "card (unvisited (set (map fst (edges d)))
               (butlast stack @ predecessors (edges d) (last stack)) (insert (last stack) visited))
             < card (unvisited (set (map fst (edges d))) stack visited)"
    by (intro psubset_card_mono) (auto simp: unvisited_def)
  then show ?case by auto
next
  case (4 d target root_id expected_type stack visited branch)
  then have "unvisited (set (map fst (edges d)))
               (butlast stack @ predecessors (edges d) (last stack)) (insert (last stack) visited)
             \<subset> unvisited (set (map fst (edges d))) stack visited"
    by (auto simp: unvisited_def predecessors_def dest: in_set_butlastD)
  then have "card (unvisited (set (map fst (edges d)))
               (butlast stack @ predecessors (edges d) (last stack)) (insert (last stack) visited))
             < card (unvisited (set (map fst (edges d))) stack visited)"
    by (intro psubset_card_mono) (auto simp: unvisited_def)
  then show ?case by auto
next
  case (5 d target root_id expected_type stack visited branch)
  then have "unvisited (set (map fst (edges d))) (butlast stack) (insert (last stack) visited)
             \<subset> unvisited (set (map fst (edges d))) stack visited"
    by (auto simp: unvisited_def dest: in_set_butlastD)
  then have "card (unvisited (set (map fst (edges d))) (butlast stack) (insert (last stack) visited))
             < card (unvisited (set (map fst (edges d))) stack visited)"
    by (intro psubset_card_mono) (auto simp: unvisited_def)
  then show ?case by auto
next
  case (6 d target root_id expected_type stack visited branch)
  then have "unvisited (set (map fst (edges d))) (butlast stack) (insert (last stack) visited)
             \<subset> unvisited (set (map fst (edges d))) stack visited"
    by (auto simp: unvisited_def dest: in_set_butlastD)
  then have "card (unvisited (set (map fst (edges d))) (butlast stack) (insert (last stack) visited))
             < card (unvisited (set (map fst (edges d))) stack visited)"
    by (intro psubset_card_mono) (auto simp: unvisited_def)
  then show ?case by auto
qed

declare unweakened_loop.simps [simp del]

definition traverse_unweakened_branch :: "debate \<Rightarrow> string \<Rightarrow> string \<Rightarrow> string \<Rightarrow> string list" where
  "traverse_unweakened_branch d target root_id expected_type =
     unweakened_loop d target root_id expected_type [root_id] {} []"

text \<open>The check \<open>all_expected_type\<close> of \<open>find_unweakened_branches\<close>.\<close>

definition all_expected_type :: "debate \<Rightarrow> string \<Rightarrow> string \<Rightarrow> string list \<Rightarrow> bool" where
  "all_expected_type d target expected_type branch =
     list_all (\<lambda>arg_id.
                 if expected_type = ''pro'' \<and> \<not> is_pro_argument d target arg_id then False
                 else if expected_type = ''con'' \<and> \<not> is_con_argument d target arg_id then False
                 else True) branch"

definition find_unweakened_branches ::
  "debate \<Rightarrow> string \<Rightarrow> string list \<Rightarrow> string \<Rightarrow> string list list" where
  "find_unweakened_branches d target supporters_or_attackers expected_type =
     filter (\<lambda>branch. length branch > 0 \<and> all_expected_type d target expected_type branch)
       (map (\<lambda>root. traverse_unweakened_branch d target root expected_type)
            (filter (is_significant_root (nodes d)) supporters_or_attackers))"

text \<open>\<open>find_pro_weakening_sub_branches\<close> and \<open>find_con_weakening_sub_branches\<close>: the
  full branch of every significant source of an attack on an argument of the given
  unweakened branches.\<close>

definition find_weakening_sub_branches :: "debate \<Rightarrow> string list list \<Rightarrow> string list list" where
  "find_weakening_sub_branches d unweakened_branches =
     map (\<lambda>(edge_id, edge_data). traverse_full_branch (edges d) edge_id)
         (filter (\<lambda>(edge_id, edge_data).
                    rel_of edge_data < 0
                    \<and> successor_id edge_data \<in> set (concat unweakened_branches)
                    \<and> is_significant_root (nodes d) edge_id)
                 (edges d))"

record branch_lists =
  pro_branches :: "string list list"
  con_branches :: "string list list"
  unweakened_pro_branches :: "string list list"
  unweakened_con_branches :: "string list list"
  pro_weakening_sub_branches :: "string list list"
  con_weakening_sub_branches :: "string list list"

definition identify_branches :: "debate \<Rightarrow> string \<Rightarrow> branch_lists" where
  "identify_branches d target =
     (let significant_supporters = significant_relatives True d target;
          significant_attackers = significant_relatives False d target;
          unweakened_pro = find_unweakened_branches d target significant_supporters ''pro'';
          unweakened_con = find_unweakened_branches d target significant_attackers ''con''
      in \<lparr>pro_branches = map (traverse_full_branch (edges d))
                            (filter (is_significant_root (nodes d)) significant_supporters),
          con_branches = map (traverse_full_branch (edges d))
                            (filter (is_significant_root (nodes d)) significant_attackers),
          unweakened_pro_branches = unweakened_pro,
          unweakened_con_branches = unweakened_con,
          pro_weakening_sub_branches = find_weakening_sub_branches d unweakened_pro,
          con_weakening_sub_branches = find_weakening_sub_branches d unweakened_con\<rparr>)"

section \<open>The constructive search as the specification words it\<close>

text \<open>
  A debate is well formed when every node has an initial weight and both ends of every
  edge are nodes.
\<close>

definition well_formed :: "debate \<Rightarrow> bool" where
  "well_formed d =
     (has_initial_weights (nodes d)
      \<and> list_all (\<lambda>(src_id, e). src_id \<in> set (map fst (nodes d))
                                 \<and> successor_id e \<in> set (map fst (nodes d))) (edges d))"

text \<open>
  The test of the specification: restrict the graph to \<open>args\<close>, propagate, and compare
  \<open>final(target)\<close> with \<open>initial(target)\<close>. A propagation that assigns the target no weight
  does not strengthen it.
\<close>

definition strengthens ::
  "(debate \<Rightarrow> error + (string \<rightharpoonup> real)) \<Rightarrow> debate \<Rightarrow> string \<Rightarrow> real \<Rightarrow> string list \<Rightarrow> bool" where
  "strengthens propagate d target w0 args =
     (case propagate (create_restriction d args) of
        Inl err \<Rightarrow> False
      | Inr final \<Rightarrow> (case final target of None \<Rightarrow> False | Some w \<Rightarrow> w > w0))"

text \<open>
  A column of the rankings for a heuristic and a category: the empty list when the
  rankings have no entry for the heuristic or for the category.
\<close>

definition listed :: "rankings_data \<Rightarrow> string \<Rightarrow> string \<Rightarrow> (category_data \<Rightarrow> 'a list) \<Rightarrow> 'a list" where
  "listed r heuristic name column =
     (case rankings r heuristic of
        None \<Rightarrow> []
      | Some by_category \<Rightarrow> (case by_category name of None \<Rightarrow> [] | Some c \<Rightarrow> column c))"

text \<open>The non-empty prefixes of a ranked list, shortest first.\<close>

definition prefixes :: "'a list \<Rightarrow> 'a list list" where
  "prefixes xs = map (\<lambda>k. take k xs) [1..<Suc (length xs)]"

text \<open>
  Adding branches one at a time in ranked order and retesting after each addition ends at
  the shortest non-empty prefix of the ranked list that passes the test, if there is one.
\<close>

definition first_sufficient_prefix ::
  "(string list \<Rightarrow> bool) \<Rightarrow> string list list \<Rightarrow> string list list option" where
  "first_sufficient_prefix passes ranked = List.find (\<lambda>p. passes (concat p)) (prefixes ranked)"

text \<open>
  Strengthening, in the words of the specification. \<open>passes\<close> is the test of an argument
  list, \<open>base\<close> the unweakened con-branches, \<open>pro\<close> the pro-branches in ranked order and
  \<open>con_weakening\<close> the con-weakening branches in ranked order, each with the list of its
  branch names. The base is the union of all unweakened con-branches with the target; if
  the base passes, success with an empty addition; otherwise the shortest sufficient prefix
  of the ranked pro-branches; otherwise, on top of all pro-branches, the shortest
  sufficient prefix of the ranked con-weakening branches; otherwise failure.
\<close>

definition constructive_strengthening_spec ::
  "(string list \<Rightarrow> bool) \<Rightarrow> string list \<Rightarrow> string list list \<Rightarrow> string list \<Rightarrow> string list list
     \<Rightarrow> string list \<Rightarrow> string list list \<Rightarrow> string \<Rightarrow> explanation" where
  "constructive_strengthening_spec passes base_names base pro_names pro
     con_weakening_names con_weakening target =
     (let with_base = (\<lambda>added. passes (concat base @ added @ [target]))
      in if with_base []
         then \<lparr>success = True,
               explanation_abv = [base_names, []],
               explanation_arg = [concat base, []]\<rparr>
         else
           (case first_sufficient_prefix with_base pro of
              Some p \<Rightarrow>
                \<lparr>success = True,
                 explanation_abv = [base_names, take (length p) pro_names],
                 explanation_arg = [concat base, concat p]\<rparr>
            | None \<Rightarrow>
                (case first_sufficient_prefix (\<lambda>added. with_base (concat pro @ added))
                        con_weakening of
                   Some q \<Rightarrow>
                     \<lparr>success = True,
                      explanation_abv =
                        [base_names, take (length pro) pro_names,
                         take (length q) con_weakening_names],
                      explanation_arg = [concat base, concat pro, concat q]\<rparr>
                 | None \<Rightarrow>
                     \<lparr>success = False, explanation_abv = [], explanation_arg = []\<rparr>)))"

section \<open>Example debates\<close>

definition plain_node :: "real \<Rightarrow> node" where
  "plain_node w = \<lparr>initial_weight = Some w, final_weight = None\<rparr>"

definition support_edge :: "string \<Rightarrow> edge" where
  "support_edge dst = \<lparr>successor_id = dst, relation = Some 1\<rparr>"

definition attack_edge :: "string \<Rightarrow> edge" where
  "attack_edge dst = \<lparr>successor_id = dst, relation = Some (- 1)\<rparr>"

text \<open>The chain \<open>A\<close> supports \<open>B\<close> supports \<open>target\<close>, every initial weight 0.5.\<close>

definition chain_debate :: debate where
  "chain_debate =
     \<lparr>nodes = [(''A'', plain_node 0.5), (''B'', plain_node 0.5), (''target'', plain_node 0.5)],
      edges = [(''A'', support_edge ''B''), (''B'', support_edge ''target'')]\<rparr>"

text \<open>One edge \<open>a\<close> supports \<open>b\<close>, and a third node \<open>c\<close> that no edge touches.\<close>

definition isolated_debate :: debate where
  "isolated_debate =
     \<lparr>nodes = [(''a'', plain_node 0.5), (''b'', plain_node 0.5), (''c'', plain_node 0.5)],
      edges = [(''a'', support_edge ''b'')]\<rparr>"

definition fin_node :: "real \<Rightarrow> real \<Rightarrow> node" where
  "fin_node w f = \<lparr>initial_weight = Some w, final_weight = Some f\<rparr>"

text \<open>
  A target \<open>t\<close> with a supporter \<open>s\<close>, itself supported by \<open>s2\<close> and attacked by \<open>x\<close>, and
  an attacker \<open>a\<close> supported by \<open>a2\<close>; every initial weight is 0.5. \<open>mixed_debate\<close> is
  \<open>mixed_raw\<close> with the final weights of the full-graph propagation stored.
\<close>

definition mixed_raw :: debate where
  "mixed_raw =
     \<lparr>nodes = [(''t'', plain_node 0.5), (''s'', plain_node 0.5), (''s2'', plain_node 0.5),
               (''x'', plain_node 0.5), (''a'', plain_node 0.5), (''a2'', plain_node 0.5)],
      edges = [(''s'', support_edge ''t''), (''s2'', support_edge ''s''), (''x'', attack_edge ''s''),
               (''a'', attack_edge ''t''), (''a2'', support_edge ''a'')]\<rparr>"

definition mixed_debate :: debate where
  "mixed_debate =
     \<lparr>nodes = [(''t'', fin_node 0.5 (50 / 101)), (''s'', fin_node 0.5 0.5),
               (''s2'', fin_node 0.5 0.5), (''x'', fin_node 0.5 0.5), (''a'', fin_node 0.5 0.6),
               (''a2'', fin_node 0.5 0.5)],
      edges = [(''s'', support_edge ''t''), (''s2'', support_edge ''s''), (''x'', attack_edge ''s''),
               (''a'', attack_edge ''t''), (''a2'', support_edge ''a'')]\<rparr>"

text \<open>
  A target \<open>t\<close> with one supporter \<open>s\<close> and one attacker \<open>a\<close> of the same weight: the
  energy of \<open>t\<close> is zero and its final weight is its initial weight.
\<close>

definition balanced_raw :: debate where
  "balanced_raw =
     \<lparr>nodes = [(''t'', plain_node 0.5), (''s'', plain_node 0.5), (''a'', plain_node 0.5)],
      edges = [(''s'', support_edge ''t''), (''a'', attack_edge ''t'')]\<rparr>"

definition balanced_debate :: debate where
  "balanced_debate =
     \<lparr>nodes = [(''t'', fin_node 0.5 0.5), (''s'', fin_node 0.5 0.5), (''a'', fin_node 0.5 0.5)],
      edges = [(''s'', support_edge ''t''), (''a'', attack_edge ''t'')]\<rparr>"

text \<open>A category of the rankings file whose branches are ranked in their original order.\<close>

definition category :: "string list \<Rightarrow> string list list \<Rightarrow> category_data" where
  "category ids bs = \<lparr>branches_abv = ids, branches = bs, ranking_abv = ids, ranking = bs\<rparr>"

text \<open>The rankings of \<open>balanced_debate\<close> for the target \<open>t\<close>: one branch in each category
  that is not empty, the same under the three heuristics.\<close>

definition balanced_categories :: "string \<rightharpoonup> category_data" where
  "balanced_categories =
     [''pro-branches'' \<mapsto> category [''Pb1''] [[''s'']],
      ''con-branches'' \<mapsto> category [''Cb1''] [[''a'']],
      ''unweakened pro-branches'' \<mapsto> category [''UnWPb1''] [[''s'']],
      ''unweakened con-branches'' \<mapsto> category [''UnWCb1''] [[''a'']]]"

definition balanced_rankings :: rankings_data where
  "balanced_rankings =
     \<lparr>debate_id = ''1'', t_id = ''t'', direction = ''unchanged'',
      rankings = [''weak to strong'' \<mapsto> balanced_categories,
                  ''strong to weak'' \<mapsto> balanced_categories,
                  ''small to large'' \<mapsto> balanced_categories]\<rparr>"

text \<open>The two-cycle: \<open>a\<close> supports \<open>b\<close> and \<open>b\<close> supports \<open>a\<close>.\<close>

definition cyclic_debate :: debate where
  "cyclic_debate =
     \<lparr>nodes = [(''a'', plain_node 0.5), (''b'', plain_node 0.5)],
      edges = [(''a'', support_edge ''b''), (''b'', support_edge ''a'')]\<rparr>"

text \<open>
  A target \<open>t\<close> with a supporter \<open>s\<close> and an attacker \<open>a\<close> of initial weight 0.6 that is
  itself attacked by \<open>x\<close>: the target is strengthened on the full graph, and only once \<open>x\<close>
  weakens \<open>a\<close>. \<open>staged_debate\<close> stores the final weights of \<open>staged_raw\<close>, and
  \<open>staged_rankings\<close> holds its branches for the target \<open>t\<close>.
\<close>

definition staged_raw :: debate where
  "staged_raw =
     \<lparr>nodes = [(''t'', plain_node 0.5), (''s'', plain_node 0.5), (''a'', plain_node 0.6),
               (''x'', plain_node 0.5)],
      edges = [(''s'', support_edge ''t''), (''a'', attack_edge ''t''), (''x'', attack_edge ''a'')]\<rparr>"

definition staged_debate :: debate where
  "staged_debate =
     \<lparr>nodes = [(''t'', fin_node 0.5 (1251 / 2501)), (''s'', fin_node 0.5 0.5),
               (''a'', fin_node 0.6 0.48), (''x'', fin_node 0.5 0.5)],
      edges = [(''s'', support_edge ''t''), (''a'', attack_edge ''t''), (''x'', attack_edge ''a'')]\<rparr>"

definition staged_categories :: "string \<rightharpoonup> category_data" where
  "staged_categories =
     [''pro-branches'' \<mapsto> category [''Pb1''] [[''s'']],
      ''con-branches'' \<mapsto> category [''Cb1''] [[''a'', ''x'']],
      ''unweakened pro-branches'' \<mapsto> category [''UnWPb1''] [[''s'']],
      ''unweakened con-branches'' \<mapsto> category [''UnWCb1''] [[''a'']],
      ''con-weakening branches'' \<mapsto> category [''CWb1''] [[''x'']]]"

definition staged_rankings :: rankings_data where
  "staged_rankings =
     \<lparr>debate_id = ''2'', t_id = ''t'', direction = ''strengthening'',
      rankings = [''weak to strong'' \<mapsto> staged_categories,
                  ''strong to weak'' \<mapsto> staged_categories,
                  ''small to large'' \<mapsto> staged_categories]\<rparr>"

text \<open>
  A target \<open>t\<close> with a weak supporter \<open>s1\<close> (0.125), a strong supporter \<open>s2\<close> (0.5) and an
  attacker \<open>a\<close> (0.25): the strong supporter alone outweighs the attacker, the weak one
  does not. \<open>ranked_debate\<close> stores the final weights of \<open>ranked_raw\<close>. In
  \<open>ranked_rankings\<close> the pro-branches are listed in the order of extraction (\<open>s1\<close> then
  \<open>s2\<close>); the heuristics rank them by the final weight of their root, so that
  \<open>strong to weak\<close> reverses that order.
\<close>

definition ranked_raw :: debate where
  "ranked_raw =
     \<lparr>nodes = [(''t'', plain_node 0.5), (''s1'', plain_node 0.125), (''s2'', plain_node 0.5),
               (''a'', plain_node 0.25)],
      edges = [(''s1'', support_edge ''t''), (''s2'', support_edge ''t''),
               (''a'', attack_edge ''t'')]\<rparr>"

definition ranked_debate :: debate where
  "ranked_debate =
     \<lparr>nodes = [(''t'', fin_node 0.5 (41 / 73)), (''s1'', fin_node 0.125 0.125),
               (''s2'', fin_node 0.5 0.5), (''a'', fin_node 0.25 0.25)],
      edges = [(''s1'', support_edge ''t''), (''s2'', support_edge ''t''),
               (''a'', attack_edge ''t'')]\<rparr>"

definition ranked_categories :: "bool \<Rightarrow> string \<rightharpoonup> category_data" where
  "ranked_categories strongest_first =
     [''pro-branches'' \<mapsto>
        \<lparr>branches_abv = [''Pb1'', ''Pb2''], branches = [[''s1''], [''s2'']],
         ranking_abv = (if strongest_first then [''Pb2'', ''Pb1''] else [''Pb1'', ''Pb2'']),
         ranking = (if strongest_first then [[''s2''], [''s1'']] else [[''s1''], [''s2'']])\<rparr>,
      ''con-branches'' \<mapsto> category [''Cb1''] [[''a'']],
      ''unweakened pro-branches'' \<mapsto>
        \<lparr>branches_abv = [''UnWPb1'', ''UnWPb2''], branches = [[''s1''], [''s2'']],
         ranking_abv = (if strongest_first then [''UnWPb2'', ''UnWPb1'']
                        else [''UnWPb1'', ''UnWPb2'']),
         ranking = (if strongest_first then [[''s2''], [''s1'']] else [[''s1''], [''s2'']])\<rparr>,
      ''unweakened con-branches'' \<mapsto> category [''UnWCb1''] [[''a'']]]"

definition ranked_rankings :: rankings_data where
  "ranked_rankings =
     \<lparr>debate_id = ''3'', t_id = ''t'', direction = ''strengthening'',
      rankings = [''weak to strong'' \<mapsto> ranked_categories False,
                  ''strong to weak'' \<mapsto> ranked_categories True,
                  ''small to large'' \<mapsto> ranked_categories False]\<rparr>"

section \<open>Evaluation on concrete debates\<close>

lemmas eval_defs = build_relations_def relation_step_def rel_of_def add_edge_def add_node_def
  setdefault_append_def Let_def initial_weights_def has_initial_weights_def topological_sort_def zero_indegree_def
  qem_accept_def calculate_energy_def qem_update_def h_def set_final_weight_def power2_eq_square
  plain_node_def support_edge_def attack_edge_def stored_final_def weight_at_def

section \<open>The saturating function and the QEM update\<close>

lemma h_nonneg: "0 \<le> h x"
  by (simp add: h_def)

lemma h_less_one: "h x < 1"
proof -
  have "0 < 1 + (max x 0)\<^sup>2" by (simp add: add_pos_nonneg)
  then show ?thesis by (simp add: h_def)
qed

lemma qem_update_bounds:
  assumes "0 \<le> w0" "w0 \<le> 1"
  shows "0 \<le> qem_update w0 e \<and> qem_update w0 e \<le> 1"
proof (cases "e > 0")
  case True
  have "0 \<le> (1 - w0) * h e" using assms h_nonneg by simp
  moreover have "(1 - w0) * h e \<le> (1 - w0) * 1"
    using assms h_less_one[of e] by (intro mult_left_mono) auto
  ultimately show ?thesis using True assms by (simp add: qem_update_def)
next
  case False
  have "0 \<le> w0 * h (- e)" using assms h_nonneg by simp
  moreover have "w0 * h (- e) \<le> w0 * 1"
    using assms h_less_one[of "- e"] by (intro mult_left_mono) auto
  ultimately show ?thesis using False assms by (simp add: qem_update_def)
qed

lemma qem_accept_unit:
  assumes "unit_weights w_init" and "qem_accept n supp att final_acc w_init = Inr v"
  shows "0 \<le> v \<and> v \<le> 1"
proof -
  from assms(2) obtain w0 where w0: "w_init n = Some w0"
    by (cases "w_init n") (auto simp: qem_accept_def Let_def split: if_splits)
  with assms(1) have b: "0 \<le> w0" "w0 \<le> 1" by (auto simp: unit_weights_def)
  from assms(2) w0 have "v = w0 \<or> v = qem_update w0 (calculate_energy n supp att final_acc)"
    by (auto simp: qem_accept_def Let_def split: if_splits)
  with b qem_update_bounds[OF b] show ?thesis by auto
qed

lemma qem_loop_unit:
  assumes "unit_weights w_init" and "unit_weights final_acc"
    and "qem_loop topo supp att w_init final_acc = Inr m"
  shows "unit_weights m"
  using assms(2,3)
proof (induction topo arbitrary: final_acc)
  case Nil
  then show ?case by simp
next
  case (Cons n topo)
  from Cons.prems(2) obtain v where v: "qem_accept n supp att final_acc w_init = Inr v"
    and rest: "qem_loop topo supp att w_init (final_acc(n \<mapsto> v)) = Inr m"
    by (cases "qem_accept n supp att final_acc w_init") auto
  from qem_accept_unit[OF assms(1) v] Cons.prems(1) have "unit_weights (final_acc(n \<mapsto> v))"
    by (auto simp: unit_weights_def)
  from Cons.IH[OF this rest] show ?case .
qed

lemma initial_weights_unit:
  assumes "initial_weights_in_unit ns" and "initial_weights ns = Inr w_init"
  shows "unit_weights w_init"
proof -
  have "0 \<le> v \<and> v \<le> 1" if "w_init k = Some v" for k v
  proof -
    from assms(2) have w: "w_init = (\<lambda>nid. Option.bind (map_of ns nid) initial_weight)"
      by (auto simp: initial_weights_def split: if_splits)
    with that obtain nd where "map_of ns k = Some nd" "initial_weight nd = Some v"
      by (cases "map_of ns k") auto
    then have "(k, nd) \<in> set ns" "initial_weight nd = Some v" by (auto dest: map_of_SomeD)
    with assms(1) show ?thesis by (auto simp: initial_weights_in_unit_def list_all_iff)
  qed
  then show ?thesis by (auto simp: unit_weights_def)
qed

lemma apply_qem_unit:
  assumes "initial_weights_in_unit (nodes fw)" and "apply_qem_to_restriction fw = Inr m"
  shows "unit_weights m"
proof (cases "nodes fw = []")
  case True
  with assms(2) show ?thesis by (auto simp: apply_qem_to_restriction_def unit_weights_def)
next
  case False
  with assms(2) obtain w_init where w: "initial_weights (nodes fw) = Inr w_init"
    by (cases "initial_weights (nodes fw)") (auto simp: apply_qem_to_restriction_def)
  have uw: "unit_weights w_init" by (rule initial_weights_unit[OF assms(1) w])
  obtain supp att G where rel: "build_relations (edges fw) = (supp, att, G)"
    by (cases "build_relations (edges fw)") auto
  show ?thesis
  proof (cases "g_edges G = []")
    case True
    with assms(2) False w rel have "m = w_init |` set (map fst (nodes fw))"
      by (simp add: apply_qem_to_restriction_def)
    with uw show ?thesis by (auto simp: unit_weights_def restrict_map_def split: if_splits)
  next
    case ne: False
    with assms(2) False w rel
    have "qem_loop (case topological_sort G of None \<Rightarrow> map fst (nodes fw) | Some order \<Rightarrow> order)
            supp att w_init Map.empty = Inr m"
      by (simp add: apply_qem_to_restriction_def Let_def)
    moreover have "unit_weights Map.empty" by (simp add: unit_weights_def)
    ultimately show ?thesis using qem_loop_unit[OF uw] by blast
  qed
qed

lemma chain_restriction_weights:
  "apply_qem_to_restriction chain_debate = Inr [''A'' \<mapsto> 0.5, ''B'' \<mapsto> 0.6, ''target'' \<mapsto> 43 / 68]"
  by (simp add: apply_qem_to_restriction_def chain_debate_def eval_defs topo_loop.simps
        del: not_None_eq)

section \<open>The float range\<close>

lemma float_limit_lower: "2 ^ 1023 \<le> float_limit"
proof -
  have "(2::real) ^ 970 \<le> 2 ^ 1023" by (rule power_increasing) simp_all
  moreover have "(2::real) ^ 1024 = 2 * 2 ^ 1023" by simp
  ultimately show ?thesis unfolding float_limit_def by linarith
qed

lemma float_limit_upper: "float_limit \<le> 2 ^ 1024"
  by (simp add: float_limit_def)

lemma below_float_limit:
  assumes "x \<le> 2 ^ 1000"
  shows "x < float_limit"
proof -
  have "(2::real) ^ 1000 < 2 ^ 1023" by (rule power_strict_increasing) simp_all
  with assms float_limit_lower show ?thesis by linarith
qed

lemma beyond_float_limit:
  assumes "2 ^ 1024 \<le> x"
  shows "float_limit \<le> x"
  using assms float_limit_upper by linarith

lemma qem_update_float_eq:
  "qem_update_float w0 e =
     (if float_limit \<le> e\<^sup>2 then Inl OverflowError else Inr (qem_update w0 e))"
proof (cases "e > 0")
  case True
  then have "max e 0 = e" by simp
  with True show ?thesis by (simp add: qem_update_float_def h_float_def qem_update_def h_def)
next
  case False
  then have "max (- e) 0 = - e" by simp
  with False show ?thesis by (simp add: qem_update_float_def h_float_def qem_update_def h_def)
qed

lemma qem_accept_float_in_range:
  assumes "(calculate_energy n supp att final_acc)\<^sup>2 < float_limit"
  shows "qem_accept_float n supp att final_acc w_init = qem_accept n supp att final_acc w_init"
  using assms
  by (simp add: qem_accept_float_def qem_accept_def qem_update_float_eq Let_def
        split: option.splits)

lemma sum_list_unit:
  assumes "\<And>x. x \<in> set xs \<Longrightarrow> 0 \<le> f x \<and> f x \<le> (1::real)"
  shows "0 \<le> sum_list (map f xs) \<and> sum_list (map f xs) \<le> real (length xs)"
  using assms
proof (induction xs)
  case Nil
  then show ?case by simp
next
  case (Cons x xs)
  from Cons.prems[of x] have "0 \<le> f x" "f x \<le> 1" by simp_all
  moreover from Cons.IH Cons.prems
  have "0 \<le> sum_list (map f xs)" "sum_list (map f xs) \<le> real (length xs)" by simp_all
  ultimately show ?case by simp
qed

lemma read_unit:
  assumes "unit_weights final_acc"
  shows "0 \<le> (case final_acc s of None \<Rightarrow> 0 | Some v \<Rightarrow> v)
         \<and> (case final_acc s of None \<Rightarrow> 0 | Some v \<Rightarrow> v) \<le> (1::real)"
  using assms by (cases "final_acc s") (auto simp: unit_weights_def)

lemma energy_in_range:
  assumes "unit_weights final_acc"
    and "length (case supp n of None \<Rightarrow> [] | Some xs \<Rightarrow> xs)
         + length (case att n of None \<Rightarrow> [] | Some xs \<Rightarrow> xs) \<le> 10 ^ 100"
  shows "(calculate_energy n supp att final_acc)\<^sup>2 < float_limit"
proof -
  let ?ss = "case supp n of None \<Rightarrow> [] | Some xs \<Rightarrow> xs"
  let ?as = "case att n of None \<Rightarrow> [] | Some xs \<Rightarrow> xs"
  let ?f = "\<lambda>s. case final_acc s of None \<Rightarrow> 0 | Some v \<Rightarrow> v"
  let ?e = "calculate_energy n supp att final_acc"
  have e: "?e = sum_list (map ?f ?ss) - sum_list (map ?f ?as)"
    by (simp add: calculate_energy_def)
  have s: "0 \<le> sum_list (map ?f ?ss) \<and> sum_list (map ?f ?ss) \<le> real (length ?ss)"
    by (rule sum_list_unit) (rule read_unit[OF assms(1)])
  have a: "0 \<le> sum_list (map ?f ?as) \<and> sum_list (map ?f ?as) \<le> real (length ?as)"
    by (rule sum_list_unit) (rule read_unit[OF assms(1)])
  have "real (length ?ss + length ?as) \<le> real ((10::nat) ^ 100)"
    using assms(2) by (rule iffD2[OF of_nat_le_iff])
  then have len: "real (length ?ss) + real (length ?as) \<le> 10 ^ 100" by simp
  from s a len have "\<bar>?e\<bar> \<le> 10 ^ 100" unfolding e by linarith
  then have "\<bar>?e\<bar> ^ 2 \<le> (10 ^ 100) ^ 2" by (intro power_mono) simp_all
  then have "?e\<^sup>2 \<le> (10 ^ 100)\<^sup>2" by (simp only: power2_abs)
  also have "((10 :: real) ^ 100)\<^sup>2 \<le> (16 ^ 100)\<^sup>2"
    by (intro power_mono) simp_all
  also have "((16 :: real) ^ 100)\<^sup>2 = 2 ^ 800"
  proof -
    have "(16 :: real) = 2 ^ 4" by simp
    then have "((16 :: real) ^ 100)\<^sup>2 = ((2 ^ 4) ^ 100) ^ 2" by (simp only:)
    also have "\<dots> = 2 ^ (4 * 100 * 2)" by (simp only: power_mult)
    finally show ?thesis by (simp del: power_numeral)
  qed
  also have "(2 :: real) ^ 800 \<le> 2 ^ 1000" by (rule power_increasing) simp_all
  finally show ?thesis by (rule below_float_limit)
qed

text \<open>
  Claim C4, as amended (bound preservation). For a node \<open>n\<close> whose initial weight \<open>w0\<close>
  lies in \<open>[0,1]\<close> and an energy whose square stays in the float range, \<open>qem_accept\<close>
  returns a weight in \<open>[0,1]\<close> whatever the supporters, the attackers and the weights
  computed so far are (with the range check and without it), and so does the update
  formula. For an energy whose square leaves
  the float range the update yields no weight but \<open>OverflowError\<close>. The energy of a node
  whose supporters and attackers have weights in \<open>[0,1]\<close> stays in the range (up to
  \<open>10^100\<close> supporters and attackers at least), and when every initial weight lies in
  \<open>[0,1]\<close>, so does every final weight that a propagation returns.
\<close>

theorem qem_bound_preservation:
  "(w_init n = Some w0 \<and> 0 \<le> w0 \<and> w0 \<le> 1
      \<and> (calculate_energy n supp att final_acc)\<^sup>2 < float_limit \<longrightarrow>
      (\<exists>v. qem_accept_float n supp att final_acc w_init = Inr v
           \<and> qem_accept n supp att final_acc w_init = Inr v \<and> 0 \<le> v \<and> v \<le> 1))
   \<and> (0 \<le> w0 \<and> w0 \<le> 1 \<and> e\<^sup>2 < float_limit \<longrightarrow>
        (\<exists>v. qem_update_float w0 e = Inr v \<and> 0 \<le> v \<and> v \<le> 1))
   \<and> (float_limit \<le> e\<^sup>2 \<longrightarrow> qem_update_float w0 e = Inl OverflowError)
   \<and> (unit_weights final_acc
        \<and> length (case supp n of None \<Rightarrow> [] | Some xs \<Rightarrow> xs)
          + length (case att n of None \<Rightarrow> [] | Some xs \<Rightarrow> xs) \<le> 10 ^ 100 \<longrightarrow>
        (calculate_energy n supp att final_acc)\<^sup>2 < float_limit)
   \<and> (initial_weights_in_unit (nodes fw) \<and> apply_qem_to_restriction fw = Inr m \<and> m k = Some w
        \<longrightarrow> 0 \<le> w \<and> w \<le> 1)"
proof -
  have 1: "\<exists>v. qem_accept_float n supp att final_acc w_init = Inr v
             \<and> qem_accept n supp att final_acc w_init = Inr v \<and> 0 \<le> v \<and> v \<le> 1"
    if "w_init n = Some w0" "0 \<le> w0" "w0 \<le> 1"
      "(calculate_energy n supp att final_acc)\<^sup>2 < float_limit"
    unfolding qem_accept_float_in_range[OF that(4)]
    using that(1,2,3) qem_update_bounds[OF that(2,3)]
    by (auto simp: qem_accept_def Let_def)
  have 2: "\<exists>v. qem_update_float w0 e = Inr v \<and> 0 \<le> v \<and> v \<le> 1"
    if "0 \<le> w0" "w0 \<le> 1" "e\<^sup>2 < float_limit"
    using that qem_update_bounds[OF that(1,2)] by (simp add: qem_update_float_eq)
  have 3: "qem_update_float w0 e = Inl OverflowError" if "float_limit \<le> e\<^sup>2"
    using that by (simp add: qem_update_float_eq)
  have 4: "(calculate_energy n supp att final_acc)\<^sup>2 < float_limit"
    if "unit_weights final_acc"
      "length (case supp n of None \<Rightarrow> [] | Some xs \<Rightarrow> xs)
       + length (case att n of None \<Rightarrow> [] | Some xs \<Rightarrow> xs) \<le> 10 ^ 100"
    using that by (rule energy_in_range)
  have 5: "0 \<le> w \<and> w \<le> 1"
    if "initial_weights_in_unit (nodes fw)" "apply_qem_to_restriction fw = Inr m" "m k = Some w"
    using apply_qem_unit[OF that(1,2)] that(3) by (simp add: unit_weights_def)
  from 1 2 3 4 5 show ?thesis by blast
qed

theorem qem_bound_preservation_witness:
  "[''t'' \<mapsto> 1 / 2] ''t'' = Some (1 / 2 :: real) \<and> (0 :: real) \<le> 1 / 2 \<and> (1 / 2 :: real) \<le> 1
   \<and> (calculate_energy ''t'' [''t'' \<mapsto> [''s'']] Map.empty [''s'' \<mapsto> 1])\<^sup>2 < float_limit
   \<and> (\<exists>v. qem_accept_float ''t'' [''t'' \<mapsto> [''s'']] Map.empty [''s'' \<mapsto> 1] [''t'' \<mapsto> 1 / 2] = Inr v
          \<and> qem_accept ''t'' [''t'' \<mapsto> [''s'']] Map.empty [''s'' \<mapsto> 1] [''t'' \<mapsto> 1 / 2] = Inr v
          \<and> 0 \<le> v \<and> v \<le> 1)
   \<and> (3 :: real)\<^sup>2 < float_limit
   \<and> (\<exists>v. qem_update_float (1 / 2) 3 = Inr v \<and> 0 \<le> v \<and> v \<le> 1)
   \<and> float_limit \<le> (2 ^ 600)\<^sup>2
   \<and> qem_update_float (1 / 2) (2 ^ 600) = Inl OverflowError
   \<and> unit_weights [''s'' \<mapsto> 1]
   \<and> initial_weights_in_unit (nodes chain_debate)
   \<and> apply_qem_to_restriction chain_debate
        = Inr [''A'' \<mapsto> 0.5, ''B'' \<mapsto> 0.6, ''target'' \<mapsto> 43 / 68]
   \<and> [''A'' \<mapsto> 0.5, ''B'' \<mapsto> 0.6, ''target'' \<mapsto> 43 / 68 :: real] ''target'' = Some (43 / 68)
   \<and> (0 :: real) \<le> 43 / 68 \<and> (43 / 68 :: real) \<le> 1"
proof -
  have u: "initial_weights_in_unit (nodes chain_debate)"
    by (simp add: initial_weights_in_unit_def chain_debate_def plain_node_def)
  have uw: "unit_weights [''s'' \<mapsto> 1]" by (simp add: unit_weights_def)
  have len: "length (case [''t'' \<mapsto> [''s'']] ''t'' of None \<Rightarrow> [] | Some xs \<Rightarrow> xs)
             + length (case (Map.empty :: string \<rightharpoonup> string list) ''t'' of None \<Rightarrow> [] | Some xs \<Rightarrow> xs)
             \<le> 10 ^ 100"
    by simp
  have small: "(3 :: real)\<^sup>2 < float_limit" by (rule below_float_limit) simp
  have big: "float_limit \<le> ((2 :: real) ^ 600)\<^sup>2"
  proof (rule beyond_float_limit)
    have "((2 :: real) ^ 600)\<^sup>2 = 2 ^ 1200" by (simp add: power_mult[symmetric])
    moreover have "(2 :: real) ^ 1024 \<le> 2 ^ 1200" by (rule power_increasing) simp_all
    ultimately show "(2 :: real) ^ 1024 \<le> (2 ^ 600)\<^sup>2" by simp
  qed
  have t: "[''t'' \<mapsto> 1 / 2] ''t'' = Some (1 / 2 :: real)" by simp
  note inst1 = qem_bound_preservation[of "[''t'' \<mapsto> 1 / 2]" "''t''" "1 / 2" "[''t'' \<mapsto> [''s'']]"
          Map.empty "[''s'' \<mapsto> 1]" 3 chain_debate
          "[''A'' \<mapsto> 0.5, ''B'' \<mapsto> 0.6, ''target'' \<mapsto> 43 / 68]" "''target''" "43 / 68"]
  note inst2 = qem_bound_preservation[of "[''t'' \<mapsto> 1 / 2]" "''t''" "1 / 2" "[''t'' \<mapsto> [''s'']]"
          Map.empty "[''s'' \<mapsto> 1]" "2 ^ 600" chain_debate
          "[''A'' \<mapsto> 0.5, ''B'' \<mapsto> 0.6, ''target'' \<mapsto> 43 / 68]" "''target''" "43 / 68"]
  from inst1 uw len have range: "(calculate_energy ''t'' [''t'' \<mapsto> [''s'']] Map.empty [''s'' \<mapsto> 1])\<^sup>2 < float_limit"
    by blast
  from inst1 t range
  have a: "\<exists>v. qem_accept_float ''t'' [''t'' \<mapsto> [''s'']] Map.empty [''s'' \<mapsto> 1] [''t'' \<mapsto> 1 / 2] = Inr v
          \<and> qem_accept ''t'' [''t'' \<mapsto> [''s'']] Map.empty [''s'' \<mapsto> 1] [''t'' \<mapsto> 1 / 2] = Inr v
          \<and> 0 \<le> v \<and> v \<le> 1"
    by simp
  from inst1 small have b: "\<exists>v. qem_update_float (1 / 2) 3 = Inr v \<and> 0 \<le> v \<and> v \<le> 1" by simp
  from inst2 big have c: "qem_update_float (1 / 2) (2 ^ 600) = Inl OverflowError" by blast
  from inst1 u chain_restriction_weights
  have d: "(0 :: real) \<le> 43 / 68 \<and> (43 / 68 :: real) \<le> 1" by simp
  from t range a small b big c uw u chain_restriction_weights d show ?thesis by simp
qed

text \<open>
  The claim as stated, for every value of the energy: a target of initial weight 0.5 with
  one supporter whose weight is \<open>10^200\<close> has the energy \<open>10^200\<close>, and \<open>qem_accept\<close>
  returns no weight in \<open>[0,1]\<close> but fails with \<open>OverflowError\<close>.
\<close>

theorem huge_energy_overflows:
  "[''t'' \<mapsto> 1 / 2] ''t'' = Some (1 / 2 :: real) \<and> (0 :: real) \<le> 1 / 2 \<and> (1 / 2 :: real) \<le> 1
   \<and> calculate_energy ''t'' [''t'' \<mapsto> [''s'']] Map.empty [''s'' \<mapsto> 10 ^ 200] = 10 ^ 200
   \<and> qem_accept_float ''t'' [''t'' \<mapsto> [''s'']] Map.empty [''s'' \<mapsto> 10 ^ 200] [''t'' \<mapsto> 1 / 2]
       = Inl OverflowError
   \<and> \<not> (\<exists>v. qem_accept_float ''t'' [''t'' \<mapsto> [''s'']] Map.empty [''s'' \<mapsto> 10 ^ 200]
               [''t'' \<mapsto> 1 / 2] = Inr v \<and> 0 \<le> v \<and> v \<le> 1)"
proof -
  define x :: real where "x = 10 ^ 200"
  have e: "calculate_energy ''t'' [''t'' \<mapsto> [''s'']] Map.empty [''s'' \<mapsto> x] = x"
    by (simp add: calculate_energy_def)
  have "(2 :: real) ^ 1024 \<le> 2 ^ 1200" by (rule power_increasing) simp_all
  also have "(2 :: real) ^ 1200 = ((2 ^ 3) ^ 200)\<^sup>2"
  proof -
    have "(((2 :: real) ^ 3) ^ 200) ^ 2 = 2 ^ (3 * 200 * 2)" by (simp only: power_mult)
    then show ?thesis by (simp del: power_numeral)
  qed
  also have "(((2 :: real) ^ 3) ^ 200)\<^sup>2 \<le> x\<^sup>2"
    unfolding x_def by (intro power_mono) simp_all
  finally have "float_limit \<le> x\<^sup>2" by (rule beyond_float_limit)
  then have o: "qem_accept_float ''t'' [''t'' \<mapsto> [''s'']] Map.empty [''s'' \<mapsto> x]
               [''t'' \<mapsto> 1 / 2] = Inl OverflowError"
    by (simp add: qem_accept_float_def qem_update_float_eq e)
  from e o show ?thesis unfolding x_def by simp
qed

section \<open>Vote aggregation\<close>






section \<open>Propagation on the example debates\<close>

lemma chain_enrich:
  "enrich_with_final chain_debate = Inr (chain_debate\<lparr>nodes :=
     [(''A'', \<lparr>initial_weight = Some 0.5, final_weight = Some 0.5\<rparr>),
      (''B'', \<lparr>initial_weight = Some 0.5, final_weight = Some 0.6\<rparr>),
      (''target'', \<lparr>initial_weight = Some 0.5, final_weight = Some (43 / 68)\<rparr>)]\<rparr>)"
  by (simp add: enrich_with_final_def chain_debate_def eval_defs topo_loop.simps del: not_None_eq)

lemma chain_apply:
  "map (weight_at (apply_qem_to_restriction chain_debate)) [''A'', ''B'', ''target'']
     = [Inr (Some 0.5), Inr (Some 0.6), Inr (Some (43 / 68))]"
  by (simp add: apply_qem_to_restriction_def chain_debate_def eval_defs topo_loop.simps del: not_None_eq)

text \<open>
  Claim C7, as amended (the chain scenario). For the chain \<open>A\<close> supports \<open>B\<close> supports
  \<open>target\<close> with every initial weight 0.5, propagation gives \<open>final(A) = 0.5\<close>,
  \<open>final(B) = 0.5 + 0.5 * h 0.5 = 0.6\<close> and \<open>final(target) = 0.5 + 0.5 * h 0.6 = 43/68\<close>,
  which is 0.6324 to four places (not 0.6596), both in the full-graph propagation and in
  the propagation of a restriction.
\<close>

theorem chain_scenario:
  "map (stored_final (enrich_with_final chain_debate)) [''A'', ''B'', ''target'']
     = [Inr (Some 0.5), Inr (Some 0.6), Inr (Some (43 / 68))]
   \<and> map (weight_at (apply_qem_to_restriction chain_debate)) [''A'', ''B'', ''target'']
     = [Inr (Some 0.5), Inr (Some 0.6), Inr (Some (43 / 68))]
   \<and> 0.5 + 0.5 * h 0.5 = 0.6 \<and> 0.5 + 0.5 * h 0.6 = 43 / 68
   \<and> \<bar>43 / 68 - 0.6324 :: real\<bar> < 0.0001"
proof -
  have e: "map (stored_final (enrich_with_final chain_debate)) [''A'', ''B'', ''target'']
     = [Inr (Some 0.5), Inr (Some 0.6), Inr (Some (43 / 68))]"
    unfolding chain_enrich by (simp add: stored_final_def)
  have hs: "0.5 + 0.5 * h 0.5 = 0.6 \<and> 0.5 + 0.5 * h 0.6 = 43 / 68
      \<and> \<bar>43 / 68 - 0.6324 :: real\<bar> < 0.0001"
    by (simp add: h_def power2_eq_square)
  show ?thesis using e chain_apply hs by blast
qed

theorem chain_scenario_target_is_not_0_6596:
  "stored_final (enrich_with_final chain_debate) ''target'' = Inr (Some (43 / 68))
   \<and> \<not> \<bar>43 / 68 - 0.6596 :: real\<bar> < 0.02"
  unfolding chain_enrich by (simp add: stored_final_def)

text \<open>
  Claim C2, evaluated at its failing input. With the nodes \<open>a\<close>, \<open>b\<close>, \<open>c\<close> and the single
  edge \<open>a\<close> supports \<open>b\<close>, both propagations succeed, \<open>a\<close> and \<open>b\<close> get final weights, and
  the node \<open>c\<close>, which no edge touches, is absent from the returned mapping and gets no
  stored final weight.
\<close>

theorem isolated_node_gets_no_final_weight:
  "map (weight_at (apply_qem_to_restriction isolated_debate)) [''a'', ''b'', ''c'']
     = [Inr (Some 0.5), Inr (Some 0.6), Inr None]
   \<and> map (stored_final (enrich_with_final isolated_debate)) [''a'', ''b'', ''c'']
     = [Inr (Some 0.5), Inr (Some 0.6), Inr None]"
  by (simp add: apply_qem_to_restriction_def enrich_with_final_def isolated_debate_def eval_defs
        topo_loop.simps del: not_None_eq)

section \<open>Stored weights of the example debates\<close>

lemma mixed_enrich: "enrich_with_final mixed_raw = Inr mixed_debate"
  by (simp add: enrich_with_final_def mixed_raw_def mixed_debate_def fin_node_def eval_defs
        topo_loop.simps del: not_None_eq)

lemma balanced_enrich: "enrich_with_final balanced_raw = Inr balanced_debate"
  by (simp add: enrich_with_final_def balanced_raw_def balanced_debate_def fin_node_def eval_defs
        topo_loop.simps del: not_None_eq)

section \<open>Branch extraction\<close>

lemma mixed_branches:
  "identify_branches mixed_debate ''t'' =
     \<lparr>pro_branches = [[''s'', ''x'', ''s2'']], con_branches = [[''a'', ''a2'']],
      unweakened_pro_branches = [[''s'', ''s2'']], unweakened_con_branches = [[''a'', ''a2'']],
      pro_weakening_sub_branches = [[''x'']], con_weakening_sub_branches = []\<rparr>"
  by code_simp

lemma balanced_branches:
  "identify_branches balanced_debate ''t'' =
     \<lparr>pro_branches = [[''s'']], con_branches = [[''a'']],
      unweakened_pro_branches = [[''s'']], unweakened_con_branches = [[''a'']],
      pro_weakening_sub_branches = [], con_weakening_sub_branches = []\<rparr>"
  by code_simp

text \<open>A branch that \<open>find_unweakened_branches\<close> returns has passed the check
  \<open>all_expected_type\<close>, so each of its arguments has the expected polarity.\<close>

lemma find_unweakened_pro:
  assumes "arg_id \<in> set (concat (find_unweakened_branches d target roots ''pro''))"
  shows "is_pro_argument d target arg_id"
proof -
  from assms obtain branch
    where b: "branch \<in> set (find_unweakened_branches d target roots ''pro'')"
      and a: "arg_id \<in> set branch" by auto
  from b have "all_expected_type d target ''pro'' branch"
    by (simp add: find_unweakened_branches_def)
  with a show ?thesis
    by (auto simp: all_expected_type_def list_all_iff split: if_splits)
qed

lemma find_unweakened_con:
  assumes "arg_id \<in> set (concat (find_unweakened_branches d target roots ''con''))"
  shows "is_con_argument d target arg_id"
proof -
  from assms obtain branch
    where b: "branch \<in> set (find_unweakened_branches d target roots ''con'')"
      and a: "arg_id \<in> set branch" by auto
  from b have "all_expected_type d target ''con'' branch"
    by (simp add: find_unweakened_branches_def)
  with a show ?thesis
    by (auto simp: all_expected_type_def list_all_iff split: if_splits)
qed

text \<open>
  Claim C9 (mutual exclusivity of polarity-pure branches). For every debate (whether or
  not it is a forest) and every target, an argument of an unweakened pro-branch returned
  by \<open>identify_branches\<close> is in no unweakened con-branch returned for the same target: the
  first has a positive path sign to the target, the second a negative one, and the path
  sign is a function of the argument.
\<close>

theorem unweakened_branches_exclusive:
  assumes "arg_id \<in> set (concat (unweakened_pro_branches (identify_branches d target)))"
  shows "arg_id \<notin> set (concat (unweakened_con_branches (identify_branches d target)))"
proof
  assume "arg_id \<in> set (concat (unweakened_con_branches (identify_branches d target)))"
  then have "is_con_argument d target arg_id"
    using find_unweakened_con by (simp add: identify_branches_def Let_def)
  moreover have "is_pro_argument d target arg_id"
    using assms find_unweakened_pro by (simp add: identify_branches_def Let_def)
  ultimately show False by (simp add: is_pro_argument_def is_con_argument_def)
qed

theorem unweakened_branches_exclusive_witness:
  "''s2'' \<in> set (concat (unweakened_pro_branches (identify_branches mixed_debate ''t'')))
   \<and> ''s2'' \<notin> set (concat (unweakened_con_branches (identify_branches mixed_debate ''t'')))"
  using unweakened_branches_exclusive[of "''s2''" mixed_debate "''t''"]
  by (simp add: mixed_branches)

section \<open>Missing weights\<close>

text \<open>
  Claim C6, as amended. Only a missing initial weight is surfaced: the propagation (both
  entry points) fails with \<open>KeyError\<close> when a node has none, and so do the searches when
  the target has none. A missing final weight is defaulted: \<open>is_significant\<close> reads it as
  \<open>0.0\<close>, so the node is not significant; \<open>determine_direction\<close> reads a missing initial
  or final weight as \<open>0.0\<close>, and a target that is no node gives \<open>unchanged\<close>; and a test of
  the searches reads the target's weight as its initial weight when the propagated mapping
  has no entry for the target.
\<close>

theorem missing_weights:
  "(final_weight nd = None \<longrightarrow> \<not> is_significant nd)
   \<and> (map_of ns target_id = Some nd \<and> final_weight nd = None \<and> initial_weight nd = Some w
        \<longrightarrow> determine_direction target_id ns =
              (if 0 > w then ''strengthening'' else if 0 < w then ''weakening'' else ''unchanged''))
   \<and> (map_of ns target_id = Some nd \<and> initial_weight nd = None \<and> final_weight nd = Some w
        \<longrightarrow> determine_direction target_id ns =
              (if w > 0 then ''strengthening'' else if w < 0 then ''weakening'' else ''unchanged''))
   \<and> (map_of ns target_id = None \<longrightarrow> determine_direction target_id ns = ''unchanged'')
   \<and> (apply_qem_to_restriction (create_restriction d args) = Inr final_weights
        \<and> final_weights target_id = None
        \<longrightarrow> target_satisfied cmp d target_id w0 args = Inr (cmp w0 w0))
   \<and> (nodes d \<noteq> [] \<and> \<not> has_initial_weights (nodes d)
        \<longrightarrow> apply_qem_to_restriction d = Inl KeyError \<and> enrich_with_final d = Inl KeyError)
   \<and> (map_of (nodes d) (t_id r) = Some nd \<and> initial_weight nd = None
        \<longrightarrow> generate_constructive_explanation r d heuristic = Inl KeyError
            \<and> generate_destructive_explanation r d heuristic = Inl KeyError)"
  by (simp add: is_significant_def determine_direction_def target_satisfied_def
        target_satisfied_with_def generate_constructive_explanation_run_with_def
        apply_qem_to_restriction_def enrich_with_final_def initial_weights_def
        generate_constructive_explanation_def generate_constructive_explanation_run_def
        generate_destructive_explanation_def generate_destructive_explanation_run_def Let_def)

lemma isolated_restriction_weights:
  "apply_qem_to_restriction (create_restriction isolated_debate [''a'', ''b'', ''c''])
     = Inr [''a'' \<mapsto> 0.5, ''b'' \<mapsto> 0.6]"
  by (simp add: apply_qem_to_restriction_def create_restriction_def restricted_items_def dict_of_items_def dict_set_def
        isolated_debate_def eval_defs topo_loop.simps del: not_None_eq)

theorem missing_weights_witness:
  "final_weight \<lparr>initial_weight = Some 0.5, final_weight = None\<rparr> = None
   \<and> \<not> is_significant \<lparr>initial_weight = Some 0.5, final_weight = None\<rparr>
   \<and> map_of [(''c'', \<lparr>initial_weight = Some 0.5, final_weight = None\<rparr>)] ''c''
        = Some \<lparr>initial_weight = Some 0.5, final_weight = None\<rparr>
   \<and> determine_direction ''c'' [(''c'', \<lparr>initial_weight = Some 0.5, final_weight = None\<rparr>)]
        = ''weakening''
   \<and> determine_direction ''c'' [(''c'', \<lparr>initial_weight = None, final_weight = Some 0.5\<rparr>)]
        = ''strengthening''
   \<and> map_of ([] :: (string \<times> node) list) ''c'' = None
   \<and> determine_direction ''c'' [] = ''unchanged''
   \<and> apply_qem_to_restriction (create_restriction isolated_debate [''a'', ''b'', ''c''])
        = Inr [''a'' \<mapsto> 0.5, ''b'' \<mapsto> 0.6]
   \<and> [''a'' \<mapsto> 0.5 :: real, ''b'' \<mapsto> 0.6] ''c'' = None
   \<and> target_satisfied (\<lambda>w1 w0. w1 < w0) isolated_debate ''c'' 0.5 [''a'', ''b'', ''c''] = Inr False
   \<and> \<not> has_initial_weights [(''c'', \<lparr>initial_weight = None, final_weight = Some 0.5\<rparr>)]
   \<and> apply_qem_to_restriction
        \<lparr>nodes = [(''c'', \<lparr>initial_weight = None, final_weight = Some 0.5\<rparr>)], edges = []\<rparr>
        = Inl KeyError
   \<and> enrich_with_final
        \<lparr>nodes = [(''c'', \<lparr>initial_weight = None, final_weight = Some 0.5\<rparr>)], edges = []\<rparr>
        = Inl KeyError
   \<and> map_of [(''t'', \<lparr>initial_weight = None, final_weight = Some 0.5\<rparr>)] (t_id balanced_rankings)
        = Some \<lparr>initial_weight = None, final_weight = Some 0.5\<rparr>
   \<and> generate_constructive_explanation balanced_rankings
        \<lparr>nodes = [(''t'', \<lparr>initial_weight = None, final_weight = Some 0.5\<rparr>)], edges = []\<rparr>
        ''small to large'' = Inl KeyError
   \<and> generate_destructive_explanation balanced_rankings
        \<lparr>nodes = [(''t'', \<lparr>initial_weight = None, final_weight = Some 0.5\<rparr>)], edges = []\<rparr>
        ''small to large'' = Inl KeyError"
  using
    missing_weights[of "\<lparr>initial_weight = Some 0.5, final_weight = None\<rparr>"
      "[(''c'', \<lparr>initial_weight = Some 0.5, final_weight = None\<rparr>)]" "''c''" "0.5"
      isolated_debate "[''a'', ''b'', ''c'']" "[''a'' \<mapsto> 0.5, ''b'' \<mapsto> 0.6]"
      "\<lambda>w1 w0. w1 < w0" "0.5" balanced_rankings "''small to large''"]
    missing_weights[of "\<lparr>initial_weight = None, final_weight = Some 0.5\<rparr>"
      "[(''c'', \<lparr>initial_weight = None, final_weight = Some 0.5\<rparr>)]" "''c''" "0.5"
      "\<lparr>nodes = [(''c'', \<lparr>initial_weight = None, final_weight = Some 0.5\<rparr>)], edges = []\<rparr>"
      "[]" "Map.empty" "\<lambda>w1 w0. w1 < w0" "0.5" balanced_rankings "''small to large''"]
    missing_weights[of "\<lparr>initial_weight = None, final_weight = Some 0.5\<rparr>"
      "[]" "''c''" "0.5"
      "\<lparr>nodes = [(''t'', \<lparr>initial_weight = None, final_weight = Some 0.5\<rparr>)], edges = []\<rparr>"
      "[]" "Map.empty" "\<lambda>w1 w0. w1 < w0" "0.5" balanced_rankings "''small to large''"]
    isolated_restriction_weights
  by (simp add: balanced_rankings_def has_initial_weights_def)

theorem missing_final_weight_is_defaulted:
  "\<not> is_significant \<lparr>initial_weight = Some 0.5, final_weight = None\<rparr>
   \<and> determine_direction ''t'' [(''t'', \<lparr>initial_weight = Some 0.5, final_weight = None\<rparr>)]
        = ''weakening''
   \<and> determine_direction ''t'' [(''t'', \<lparr>initial_weight = None, final_weight = None\<rparr>)]
        = ''unchanged''
   \<and> weight_at (apply_qem_to_restriction (create_restriction isolated_debate [''a'', ''b'', ''c'']))
        ''c'' = Inr None
   \<and> target_satisfied (\<lambda>w1 w0. w1 = w0) isolated_debate ''c'' 0.5 [''a'', ''b'', ''c''] = Inr True"
  by (simp add: is_significant_def determine_direction_def target_satisfied_def
        target_satisfied_with_def weight_at_def
        isolated_restriction_weights)

section \<open>The direction read by the searches\<close>

lemma balanced_direction: "determine_direction ''t'' (nodes balanced_debate) = ''unchanged''"
  by (simp add: determine_direction_def balanced_debate_def fin_node_def)

lemma balanced_constructive:
  "generate_constructive_explanation_run balanced_rankings balanced_debate ''small to large''
     = Inr (no_explanation, [[''s'', ''t''], [''s'', ''a'', ''t'']])"
  by code_simp

lemma balanced_destructive:
  "generate_destructive_explanation_run balanced_rankings balanced_debate ''small to large''
     = Inr (no_explanation, [[''s'', ''t''], [''s'', ''t'', ''a'']])"
  by code_simp

text \<open>
  Claim C3, as amended. The searches know two cases only: \<open>strengthening\<close> and everything
  else. For every rankings input whose direction is not \<open>strengthening\<close>, \<open>unchanged\<close>
  included, the constructive and the destructive search run the weakening search: they
  test the same restrictions and return the same result as for the direction
  \<open>weakening\<close>. There is no not-applicable outcome.
\<close>

theorem unchanged_is_searched_as_weakening:
  assumes "direction r \<noteq> ''strengthening''"
  shows "generate_constructive_explanation_run r d heuristic
           = generate_constructive_explanation_run (r\<lparr>direction := ''weakening''\<rparr>) d heuristic
       \<and> generate_destructive_explanation_run r d heuristic
           = generate_destructive_explanation_run (r\<lparr>direction := ''weakening''\<rparr>) d heuristic
       \<and> generate_constructive_explanation r d heuristic
           = generate_constructive_explanation (r\<lparr>direction := ''weakening''\<rparr>) d heuristic
       \<and> generate_destructive_explanation r d heuristic
           = generate_destructive_explanation (r\<lparr>direction := ''weakening''\<rparr>) d heuristic"
  using assms
  by (simp add: generate_constructive_explanation_def generate_constructive_explanation_run_def
        generate_constructive_explanation_run_with_def
        generate_destructive_explanation_def generate_destructive_explanation_run_def
        heuristic_data_of_def Let_def split: option.splits)

theorem unchanged_is_searched_as_weakening_witness:
  "direction balanced_rankings \<noteq> ''strengthening''
   \<and> generate_constructive_explanation_run balanced_rankings balanced_debate ''small to large''
       = generate_constructive_explanation_run (balanced_rankings\<lparr>direction := ''weakening''\<rparr>)
           balanced_debate ''small to large''
   \<and> generate_destructive_explanation_run balanced_rankings balanced_debate ''small to large''
       = generate_destructive_explanation_run (balanced_rankings\<lparr>direction := ''weakening''\<rparr>)
           balanced_debate ''small to large''"
  using unchanged_is_searched_as_weakening[of balanced_rankings balanced_debate "''small to large''"]
  by (simp add: balanced_rankings_def)

text \<open>
  The debate \<open>balanced_debate\<close> stores the weights of the full-graph propagation, its target
  \<open>t\<close> is unchanged, and the rankings hold the branches that \<open>identify_branches\<close> finds.
  Both searches nevertheless restrict and propagate twice, the second time after adding the
  con-branch \<open>[a]\<close>, and return the record of a failed search.
\<close>

theorem unchanged_target_is_searched:
  "enrich_with_final balanced_raw = Inr balanced_debate
   \<and> determine_direction ''t'' (nodes balanced_debate) = direction balanced_rankings
   \<and> direction balanced_rankings = ''unchanged''
   \<and> identify_branches balanced_debate ''t'' =
       \<lparr>pro_branches = [[''s'']], con_branches = [[''a'']],
        unweakened_pro_branches = [[''s'']], unweakened_con_branches = [[''a'']],
        pro_weakening_sub_branches = [], con_weakening_sub_branches = []\<rparr>
   \<and> generate_constructive_explanation_run balanced_rankings balanced_debate ''small to large''
       = Inr (\<lparr>success = False, explanation_abv = [], explanation_arg = []\<rparr>,
              [[''s'', ''t''], [''s'', ''a'', ''t'']])
   \<and> generate_destructive_explanation_run balanced_rankings balanced_debate ''small to large''
       = Inr (\<lparr>success = False, explanation_abv = [], explanation_arg = []\<rparr>,
              [[''s'', ''t''], [''s'', ''t'', ''a'']])"
  using balanced_enrich balanced_direction balanced_branches balanced_constructive
        balanced_destructive
  by (simp add: no_explanation_def balanced_rankings_def)

section \<open>The graph built from the edges\<close>

lemma relation_step_graph:
  "snd (snd (relation_step se st)) = add_edge (fst se) (successor_id (snd se)) (snd (snd st))"
  by (cases se; cases st) (auto simp: relation_step_def Let_def)

lemma fold_relation_step_edges:
  "set (g_edges (snd (snd (fold relation_step es st))))
     = set (g_edges (snd (snd st))) \<union> (\<lambda>(s, e). (s, successor_id e)) ` set es"
proof (induction es arbitrary: st)
  case Nil
  show ?case by simp
next
  case (Cons se es)
  show ?case
    by (cases se) (auto simp: Cons.IH relation_step_graph add_edge_def)
qed

lemma fold_relation_step_nodes:
  "set (g_nodes (snd (snd (fold relation_step es st))))
     = set (g_nodes (snd (snd st))) \<union> fst ` set es \<union> (\<lambda>(s, e). successor_id e) ` set es"
proof (induction es arbitrary: st)
  case Nil
  show ?case by simp
next
  case (Cons se es)
  show ?case
    by (cases se) (auto simp: Cons.IH relation_step_graph add_edge_def add_node_def)
qed

lemma graph_of_edges: "set (g_edges (graph_of es)) = (\<lambda>(s, e). (s, successor_id e)) ` set es"
  by (simp add: graph_of_def build_relations_def fold_relation_step_edges)

lemma graph_of_nodes:
  "set (g_nodes (graph_of es)) = fst ` set es \<union> (\<lambda>(s, e). successor_id e) ` set es"
  by (simp add: graph_of_def build_relations_def fold_relation_step_nodes)

lemma graph_of_no_edges: "g_edges (graph_of es) = [] \<longleftrightarrow> es = []"
proof -
  have "g_edges (graph_of es) = [] \<longleftrightarrow> set (g_edges (graph_of es)) = {}" by simp
  also have "\<dots> \<longleftrightarrow> es = []" unfolding graph_of_edges by simp
  finally show ?thesis .
qed

section \<open>Topological sorting\<close>

lemma topo_loop_nodes: "topo_loop es remaining acc = Some order \<Longrightarrow> set order = set acc \<union> set remaining"
proof (induction es remaining acc rule: topo_loop.induct)
  case (1 es remaining acc)
  show ?case
  proof (cases "zero_indegree es remaining = []")
    case True
    with "1.prems" show ?thesis by (auto simp: topo_loop.simps[of es remaining acc] split: if_splits)
  next
    case False
    with "1.prems" have "topo_loop es (filter (\<lambda>v. v \<notin> set (zero_indegree es remaining)) remaining)
            (acc @ zero_indegree es remaining) = Some order"
      by (simp add: topo_loop.simps[of es remaining acc])
    from "1.IH"[OF False this] show ?thesis
      by (auto simp: zero_indegree_def)
  qed
qed

lemma topo_loop_cycle:
  assumes "C \<noteq> {}" and "C \<subseteq> set remaining" and "\<forall>c\<in>C. \<exists>u\<in>C. (u, c) \<in> set es"
  shows "topo_loop es remaining acc = None"
  using assms
proof (induction es remaining acc rule: topo_loop.induct)
  case (1 es remaining acc)
  have disj: "C \<inter> set (zero_indegree es remaining) = {}"
  proof -
    have "c \<notin> set (zero_indegree es remaining)" if "c \<in> C" for c
    proof -
      from that "1.prems"(3) obtain u where "u \<in> C" "(u, c) \<in> set es" by blast
      with "1.prems"(2) have "list_ex (\<lambda>(u, w). w = c \<and> u \<in> set remaining) es"
        by (auto simp: list_ex_iff)
      then show ?thesis by (simp add: zero_indegree_def)
    qed
    then show ?thesis by auto
  qed
  show ?case
  proof (cases "zero_indegree es remaining = []")
    case True
    moreover have "remaining \<noteq> []" using "1.prems"(1,2) by auto
    ultimately show ?thesis by (simp add: topo_loop.simps[of es remaining acc])
  next
    case False
    have "C \<subseteq> set (filter (\<lambda>v. v \<notin> set (zero_indegree es remaining)) remaining)"
      using "1.prems"(2) disj by auto
    from "1.IH"[OF False "1.prems"(1) this "1.prems"(3)] False show ?thesis
      by (simp add: topo_loop.simps[of es remaining acc])
  qed
qed

section \<open>The loop over the order\<close>

lemma qem_accept_total: "w_init n \<noteq> None \<Longrightarrow> \<exists>v. qem_accept n supp att final_acc w_init = Inr v"
  by (auto simp: qem_accept_def Let_def)

lemma qem_loop_total:
  assumes "\<forall>n\<in>set topo. w_init n \<noteq> None"
  shows "\<exists>m. qem_loop topo supp att w_init final_acc = Inr m \<and> dom m = dom final_acc \<union> set topo"
  using assms
proof (induction topo arbitrary: final_acc)
  case Nil
  show ?case by simp
next
  case (Cons n topo)
  from Cons.prems have "w_init n \<noteq> None" by simp
  with qem_accept_total[of w_init n supp att final_acc]
  obtain v where v: "qem_accept n supp att final_acc w_init = Inr v" by blast
  have "\<forall>n\<in>set topo. w_init n \<noteq> None" using Cons.prems by simp
  from Cons.IH[OF this, of "final_acc(n \<mapsto> v)"]
  obtain m where m: "qem_loop topo supp att w_init (final_acc(n \<mapsto> v)) = Inr m"
    and d: "dom m = dom (final_acc(n \<mapsto> v)) \<union> set topo" by blast
  have "qem_loop (n # topo) supp att w_init final_acc = Inr m" using v m by simp
  moreover have "dom m = dom final_acc \<union> set (n # topo)" using d by simp
  ultimately show ?case by blast
qed


section \<open>Cycles\<close>

lemma cycle_predecessor:
  assumes "is_cycle es vs" and "c \<in> set vs"
  shows "\<exists>u\<in>set vs. (u, c) \<in> (\<lambda>(s, e). (s, successor_id e)) ` set es"
proof -
  have "c \<in> set (rotate1 vs)" using assms(2) by simp
  moreover have "length vs = length (rotate1 vs)" by simp
  ultimately obtain u where u: "(u, c) \<in> set (zip vs (rotate1 vs))"
    by (metis in_set_impl_in_set_zip2)
  then have "u \<in> set vs" by (rule set_zip_leftD)
  moreover from assms(1) u have "edge_between es u c"
    by (auto simp: is_cycle_def list_all_iff)
  then have "(u, c) \<in> (\<lambda>(s, e). (s, successor_id e)) ` set es"
    by (force simp: edge_between_def list_ex_iff)
  ultimately show ?thesis by blast
qed

lemma cycle_unsortable:
  assumes "is_cycle es vs"
  shows "topological_sort (graph_of es) = None"
proof -
  have ne: "set vs \<noteq> {}" using assms by (simp add: is_cycle_def)
  have pred: "\<forall>c\<in>set vs. \<exists>u\<in>set vs. (u, c) \<in> set (g_edges (graph_of es))"
    using cycle_predecessor[OF assms] by (simp add: graph_of_edges)
  have "set vs \<subseteq> set (g_nodes (graph_of es))"
  proof
    fix c assume "c \<in> set vs"
    with cycle_predecessor[OF assms] obtain u
      where "(u, c) \<in> (\<lambda>(s, e). (s, successor_id e)) ` set es" by blast
    then show "c \<in> set (g_nodes (graph_of es))" by (force simp: graph_of_nodes)
  qed
  from topo_loop_cycle[OF ne this pred] show ?thesis by (simp add: topological_sort_def)
qed

lemma topo_loop_stuck:
  assumes "topo_loop es remaining acc = None"
  shows "\<exists>R. R \<noteq> {} \<and> R \<subseteq> set remaining \<and> (\<forall>c\<in>R. \<exists>u\<in>R. (u, c) \<in> set es)"
  using assms
proof (induction es remaining acc rule: topo_loop.induct)
  case (1 es remaining acc)
  show ?case
  proof (cases "zero_indegree es remaining = []")
    case True
    with "1.prems" have ne: "remaining \<noteq> []"
      by (auto simp: topo_loop.simps[of es remaining acc] split: if_splits)
    have "\<exists>u\<in>set remaining. (u, c) \<in> set es" if "c \<in> set remaining" for c
    proof -
      from that True have "c \<notin> set (zero_indegree es remaining)" by simp
      with that have "list_ex (\<lambda>(u, w). w = c \<and> u \<in> set remaining) es"
        by (simp add: zero_indegree_def)
      then show ?thesis by (auto simp: list_ex_iff)
    qed
    with ne show ?thesis by (intro exI[of _ "set remaining"]) auto
  next
    case False
    with "1.prems" have "topo_loop es (filter (\<lambda>v. v \<notin> set (zero_indegree es remaining)) remaining)
            (acc @ zero_indegree es remaining) = None"
      by (simp add: topo_loop.simps[of es remaining acc])
    from "1.IH"[OF False this] obtain R where "R \<noteq> {}"
      and "R \<subseteq> set (filter (\<lambda>v. v \<notin> set (zero_indegree es remaining)) remaining)"
      and "\<forall>c\<in>R. \<exists>u\<in>R. (u, c) \<in> set es" by blast
    then show ?thesis by (intro exI[of _ R]) auto
  qed
qed

lemma closed_set_has_cycle:
  fixes E :: "('a \<times> 'a) set"
  assumes fin: "finite R" and ne: "R \<noteq> {}" and pred: "\<forall>c\<in>R. \<exists>u\<in>R. (u, c) \<in> E"
  shows "\<exists>vs. vs \<noteq> [] \<and> set (zip vs (rotate1 vs)) \<subseteq> E"
proof -
  from pred have "\<forall>c\<in>R. \<exists>u. u \<in> R \<and> (u, c) \<in> E" by blast
  then have "\<exists>f. \<forall>c\<in>R. f c \<in> R \<and> (f c, c) \<in> E" by (rule bchoice)
  then obtain f where f: "\<forall>c\<in>R. f c \<in> R \<and> (f c, c) \<in> E" by blast
  from ne obtain c0 where c0: "c0 \<in> R" by auto
  define s where "s = (\<lambda>i. (f ^^ i) c0)"
  have sR: "s i \<in> R" for i by (induction i) (use c0 f in \<open>auto simp: s_def\<close>)
  have step: "(s (Suc i), s i) \<in> E" for i using f sR[of i] by (simp add: s_def)
  have "\<not> inj_on s {0..card R}"
  proof
    assume "inj_on s {0..card R}"
    then have "card (s ` {0..card R}) = card {0..card R}" by (rule card_image)
    moreover have "card (s ` {0..card R}) \<le> card R"
      using sR fin by (intro card_mono) auto
    ultimately show False by simp
  qed
  then obtain a b where "a \<noteq> b" and "s a = s b" by (auto simp: inj_on_def)
  then obtain i j where ij: "i < j" and eq: "s i = s j"
    by (cases "a < b") (auto simp: not_less le_less)
  define n where "n = j - i"
  define vs where "vs = map (\<lambda>k. s (j - 1 - k)) [0..<n]"
  have n: "0 < n" "length vs = n" using ij by (simp_all add: n_def vs_def)
  have nth: "vs ! k = s (j - 1 - k)" if "k < n" for k using that by (simp add: vs_def)
  have "(u, v) \<in> E" if "(u, v) \<in> set (zip vs (rotate1 vs))" for u v
  proof -
    from that obtain k where k: "k < n" and u: "u = vs ! k" and v: "v = rotate1 vs ! k"
      using n by (auto simp: in_set_zip)
    have v': "v = vs ! (Suc k mod n)" using v k n by (simp add: nth_rotate1)
    show ?thesis
    proof (cases "Suc k < n")
      case True
      then have idx: "j - 1 - k = Suc (j - 1 - Suc k)" unfolding n_def by arith
      from True have "v = s (j - 1 - Suc k)" using v' nth[of "Suc k"] by simp
      moreover have "u = s (Suc (j - 1 - Suc k))" using u nth[OF k] idx by simp
      ultimately show ?thesis using step by simp
    next
      case False
      with k have kn: "Suc k = n" by simp
      then have idx: "j - 1 - k = i" using ij unfolding n_def by arith
      have j: "Suc (j - 1) = j" using ij by arith
      from kn have "v = s (j - 1)" using v' nth[of 0] n by simp
      moreover have "u = s (Suc (j - 1))" using u nth[OF k] idx eq j by simp
      ultimately show ?thesis using step[of "j - 1"] by simp
    qed
  qed
  moreover have "vs \<noteq> []" using n by auto
  ultimately show ?thesis by (intro exI[of _ vs]) auto
qed

lemma unsortable_has_cycle:
  assumes "topological_sort (graph_of es) = None"
  shows "\<exists>vs. is_cycle es vs"
proof -
  from topo_loop_stuck[of "g_edges (graph_of es)" "g_nodes (graph_of es)" "[]"] assms
  obtain R where "R \<noteq> {}" and sub: "R \<subseteq> set (g_nodes (graph_of es))"
    and "\<forall>c\<in>R. \<exists>u\<in>R. (u, c) \<in> set (g_edges (graph_of es))"
    by (auto simp: topological_sort_def)
  moreover from sub have "finite R" by (rule finite_subset) simp
  ultimately obtain vs where ne: "vs \<noteq> []"
    and edges: "set (zip vs (rotate1 vs)) \<subseteq> set (g_edges (graph_of es))"
    using closed_set_has_cycle[of R "set (g_edges (graph_of es))"] by blast
  have "edge_between es u v" if "(u, v) \<in> set (zip vs (rotate1 vs))" for u v
  proof -
    from that edges have "(u, v) \<in> (\<lambda>(s, e). (s, successor_id e)) ` set es"
      by (auto simp: graph_of_edges)
    then show ?thesis by (auto simp: edge_between_def list_ex_iff)
  qed
  with ne have "is_cycle es vs" by (auto simp: is_cycle_def list_all_iff)
  then show ?thesis ..
qed

text \<open>The topological sort fails exactly on the edge sets with a cycle.\<close>

lemma sortable_iff_acyclic:
  "topological_sort (graph_of es) \<noteq> None \<longleftrightarrow> (\<forall>vs. \<not> is_cycle es vs)"
proof
  assume "topological_sort (graph_of es) \<noteq> None"
  then show "\<forall>vs. \<not> is_cycle es vs" by (auto dest: cycle_unsortable)
next
  assume acyclic: "\<forall>vs. \<not> is_cycle es vs"
  show "topological_sort (graph_of es) \<noteq> None"
  proof
    assume "topological_sort (graph_of es) = None"
    then obtain vs where "is_cycle es vs" using unsortable_has_cycle by blast
    with acyclic show False by simp
  qed
qed

lemma cycle_of_sublist:
  assumes "is_cycle (filter P es) vs"
  shows "is_cycle es vs"
proof -
  have "edge_between es u v" if "edge_between (filter P es) u v" for u v
    using that by (auto simp: edge_between_def list_ex_iff)
  with assms show ?thesis by (auto simp: is_cycle_def list_all_iff)
qed

lemma cycle_has_edge: "is_cycle es vs \<Longrightarrow> es \<noteq> []"
  using cycle_predecessor[of es vs "hd vs"] by (auto simp: is_cycle_def)

lemma initial_weights_ok:
  "has_initial_weights ns \<Longrightarrow>
     initial_weights ns = Inr (\<lambda>nid. Option.bind (map_of ns nid) initial_weight)"
  by (simp add: initial_weights_def)

lemma initial_weights_defined:
  assumes "has_initial_weights ns" and "n \<in> set (map fst ns)"
  shows "Option.bind (map_of ns n) initial_weight \<noteq> None"
proof -
  from assms(2) obtain nd where nd: "map_of ns n = Some nd"
    by (cases "map_of ns n") (auto simp: map_of_eq_None_iff)
  then have "(n, nd) \<in> set ns" by (rule map_of_SomeD)
  with assms(1) have "initial_weight nd \<noteq> None"
    by (auto simp: has_initial_weights_def list_all_iff)
  with nd show ?thesis by simp
qed

text \<open>
  Claim C1, as amended. For every input whose edge set contains a cycle, the full-graph
  propagation \<open>enrich_with_final\<close> returns no weights: it fails, and with the cycle error
  of the topological sort when every node has an initial weight. The propagation of a
  restriction, \<open>apply_qem_to_restriction\<close>, catches that error: on such an input with at
  least one node it takes the nodes in the order of the nodes mapping and returns a
  mapping with a weight for every node.
\<close>

theorem cyclic_propagation:
  assumes "is_cycle (edges d) vs"
  shows "(\<exists>err. enrich_with_final d = Inl err)
       \<and> (has_initial_weights (nodes d) \<longrightarrow> enrich_with_final d = Inl NetworkXUnfeasible)
       \<and> (has_initial_weights (nodes d) \<and> nodes d \<noteq> [] \<longrightarrow>
            (\<exists>m. apply_qem_to_restriction d = Inr m \<and> dom m = set (map fst (nodes d))))"
proof -
  obtain supp att G where rel: "build_relations (edges d) = (supp, att, G)"
    by (cases "build_relations (edges d)") auto
  then have G: "G = graph_of (edges d)" by (simp add: graph_of_def)
  have unsortable: "topological_sort G = None" unfolding G by (rule cycle_unsortable[OF assms])
  have edges: "g_edges G \<noteq> []" unfolding G using cycle_has_edge[OF assms] by (simp add: graph_of_no_edges)
  have 1: "\<exists>err. enrich_with_final d = Inl err"
    by (cases "initial_weights (nodes d)") (simp_all add: enrich_with_final_def rel unsortable)
  have 2: "enrich_with_final d = Inl NetworkXUnfeasible" if "has_initial_weights (nodes d)"
    using initial_weights_ok[OF that] by (simp add: enrich_with_final_def rel unsortable)
  have 3: "\<exists>m. apply_qem_to_restriction d = Inr m \<and> dom m = set (map fst (nodes d))"
    if w: "has_initial_weights (nodes d)" and ne: "nodes d \<noteq> []"
  proof -
    let ?w = "\<lambda>nid. Option.bind (map_of (nodes d) nid) initial_weight"
    have "\<forall>n\<in>set (map fst (nodes d)). ?w n \<noteq> None"
      using initial_weights_defined[OF w] by blast
    from qem_loop_total[OF this, of supp att Map.empty]
    obtain m where "qem_loop (map fst (nodes d)) supp att ?w Map.empty = Inr m"
      and "dom m = set (map fst (nodes d))" by auto
    then show ?thesis
      using ne edges by (simp add: apply_qem_to_restriction_def initial_weights_ok[OF w] rel unsortable)
  qed
  from 1 2 3 show ?thesis by blast
qed

theorem cyclic_propagation_witness:
  "is_cycle (edges cyclic_debate) [''a'', ''b'']
   \<and> has_initial_weights (nodes cyclic_debate) \<and> nodes cyclic_debate \<noteq> []
   \<and> enrich_with_final cyclic_debate = Inl NetworkXUnfeasible
   \<and> (\<exists>m. apply_qem_to_restriction cyclic_debate = Inr m
          \<and> dom m = set (map fst (nodes cyclic_debate)))"
proof -
  have c: "is_cycle (edges cyclic_debate) [''a'', ''b'']" by code_simp
  have w: "has_initial_weights (nodes cyclic_debate)" by code_simp
  have n: "nodes cyclic_debate \<noteq> []" by (simp add: cyclic_debate_def)
  from cyclic_propagation[OF c] c w n show ?thesis by blast
qed

theorem cyclic_restriction_is_propagated:
  "is_cycle (edges cyclic_debate) [''a'', ''b'']
   \<and> create_restriction cyclic_debate [''a'', ''b''] = cyclic_debate
   \<and> map (weight_at (apply_qem_to_restriction (create_restriction cyclic_debate [''a'', ''b''])))
        [''a'', ''b''] = [Inr (Some 0.5), Inr (Some 0.6)]"
  by code_simp

section \<open>Restrictions\<close>

lemma map_of_replace_other:
  "x \<noteq> k \<Longrightarrow> map_of (map (\<lambda>kv. if fst kv = k then (k, v) else kv) d) x = map_of d x"
proof (induction d)
  case Nil
  show ?case by simp
next
  case (Cons kv d)
  then show ?case by (cases kv) simp
qed

lemma map_of_replace_key:
  "k \<in> set (map fst d) \<Longrightarrow> map_of (map (\<lambda>kv. if fst kv = k then (k, v) else kv) d) k = Some v"
proof (induction d)
  case Nil
  then show ?case by simp
next
  case (Cons kv d)
  show ?case
  proof (cases "fst kv = k")
    case True
    then show ?thesis by simp
  next
    case False
    with Cons.prems have "k \<in> set (map fst d)" by auto
    from Cons.IH[OF this] False show ?thesis by (cases kv) simp
  qed
qed

lemma map_of_dict_set: "map_of (dict_set k v d) = (map_of d)(k \<mapsto> v)"
proof (cases "k \<in> set (map fst d)")
  case False
  then have none: "map_of d k = None" by (simp add: map_of_eq_None_iff)
  have "dict_set k v d = d @ [(k, v)]" using False by (simp add: dict_set_def)
  then have "map_of (dict_set k v d) = map_of [(k, v)] ++ map_of d" by simp
  also have "\<dots> = (map_of d)(k \<mapsto> v)"
  proof
    fix x
    show "(map_of [(k, v)] ++ map_of d) x = ((map_of d)(k \<mapsto> v)) x"
      using none by (cases "x = k") (simp_all add: map_add_def split: option.splits)
  qed
  finally show ?thesis .
next
  case True
  then have eq: "dict_set k v d = map (\<lambda>kv. if fst kv = k then (k, v) else kv) d"
    by (simp add: dict_set_def)
  show ?thesis
  proof
    fix x
    show "map_of (dict_set k v d) x = ((map_of d)(k \<mapsto> v)) x"
      using map_of_replace_other[of x k v d] map_of_replace_key[OF True, of v]
      by (cases "x = k") (simp_all add: eq)
  qed
qed

lemma keys_replace: "map fst (map (\<lambda>kv. if fst kv = k then (k, v) else kv) d) = map fst d"
proof (induction d)
  case Nil
  show ?case by simp
next
  case (Cons kv d)
  then show ?case by (cases kv) simp
qed

lemma distinct_dict_set:
  assumes "distinct (map fst d)"
  shows "distinct (map fst (dict_set k v d))"
proof (cases "k \<in> set (map fst d)")
  case True
  then have "dict_set k v d = map (\<lambda>kv. if fst kv = k then (k, v) else kv) d"
    by (simp add: dict_set_def)
  with assms show ?thesis by (simp only: keys_replace)
next
  case False
  then have "dict_set k v d = d @ [(k, v)]" by (simp add: dict_set_def)
  with assms False show ?thesis by simp
qed

lemma fold_dict_set:
  assumes "\<forall>(k, v)\<in>set kvs. g k = Some v"
  shows "map_of (fold (\<lambda>(k, v) d. dict_set k v d) kvs acc) = map_of acc ++ (g |` (fst ` set kvs))"
  using assms
proof (induction kvs arbitrary: acc)
  case Nil
  show ?case by simp
next
  case (Cons kv kvs)
  obtain k v where kv: "kv = (k, v)" by (cases kv)
  with Cons.prems have g: "g k = Some v" and rest: "\<forall>(k, v)\<in>set kvs. g k = Some v" by auto
  have "map_of (fold (\<lambda>(k, v) d. dict_set k v d) (kv # kvs) acc)
          = map_of (fold (\<lambda>(k, v) d. dict_set k v d) kvs (dict_set k v acc))"
    by (simp add: kv)
  also have "\<dots> = map_of (dict_set k v acc) ++ (g |` (fst ` set kvs))"
    by (rule Cons.IH[OF rest])
  also have "\<dots> = (map_of acc)(k \<mapsto> v) ++ (g |` (fst ` set kvs))"
    by (simp only: map_of_dict_set)
  also have "\<dots> = map_of acc ++ (g |` (fst ` set (kv # kvs)))"
    using g by (auto simp: kv fun_eq_iff map_add_def restrict_map_def split: option.splits)
  finally show ?case .
qed

lemma fold_dict_set_distinct:
  "distinct (map fst acc) \<Longrightarrow> distinct (map fst (fold (\<lambda>(k, v) d. dict_set k v d) kvs acc))"
proof (induction kvs arbitrary: acc)
  case Nil
  then show ?case by simp
next
  case (Cons kv kvs)
  obtain k v where kv: "kv = (k, v)" by (cases kv)
  from Cons.IH[OF distinct_dict_set[OF Cons.prems, of k v]] show ?case by (simp add: kv)
qed

lemma restricted_items_set:
  "set (restricted_items ns args) = {(a, nd). a \<in> set args \<and> map_of ns a = Some nd}"
proof (induction args)
  case Nil
  show ?case by (simp add: restricted_items_def)
next
  case (Cons a args)
  have "restricted_items ns (a # args)
          = (case map_of ns a of None \<Rightarrow> [] | Some nd \<Rightarrow> [(a, nd)]) @ restricted_items ns args"
    by (simp add: restricted_items_def)
  then show ?case using Cons.IH by (cases "map_of ns a") auto
qed

lemma restricted_items_values: "\<forall>(k, v)\<in>set (restricted_items ns args). map_of ns k = Some v"
  by (simp add: restricted_items_set)

lemma restricted_items_keys: "fst ` set (restricted_items ns args) = set args \<inter> dom (map_of ns)"
proof -
  have "fst ` {(a, nd). a \<in> set args \<and> map_of ns a = Some nd} = set args \<inter> dom (map_of ns)"
  proof (intro set_eqI iffI)
    fix x assume "x \<in> fst ` {(a, nd). a \<in> set args \<and> map_of ns a = Some nd}"
    then show "x \<in> set args \<inter> dom (map_of ns)" by auto
  next
    fix x assume "x \<in> set args \<inter> dom (map_of ns)"
    then obtain nd where "x \<in> set args" "map_of ns x = Some nd" by auto
    then have "(x, nd) \<in> {(a, nd). a \<in> set args \<and> map_of ns a = Some nd}" by simp
    then show "x \<in> fst ` {(a, nd). a \<in> set args \<and> map_of ns a = Some nd}"
      by (rule image_eqI[rotated]) simp
  qed
  then show ?thesis by (simp only: restricted_items_set)
qed

lemma restriction_nodes:
  "map_of (nodes (create_restriction d args)) = map_of (nodes d) |` set args"
proof (cases "args = []")
  case True
  then show ?thesis by (simp add: create_restriction_def)
next
  case False
  then have "nodes (create_restriction d args)
               = fold (\<lambda>(k, v) d. dict_set k v d) (restricted_items (nodes d) args) []"
    by (simp add: create_restriction_def dict_of_items_def)
  then have "map_of (nodes (create_restriction d args))
               = Map.empty ++ (map_of (nodes d) |` (fst ` set (restricted_items (nodes d) args)))"
    using fold_dict_set[OF restricted_items_values, of "nodes d" args "[]"] by simp
  also have "\<dots> = map_of (nodes d) |` (set args \<inter> dom (map_of (nodes d)))"
    by (simp only: restricted_items_keys empty_map_add)
  also have "\<dots> = map_of (nodes d) |` set args"
    by (auto simp: fun_eq_iff restrict_map_def)
  finally show ?thesis .
qed

lemma restriction_distinct: "distinct (map fst (nodes (create_restriction d args)))"
proof -
  have "distinct (map fst (fold (\<lambda>(k, v) d. dict_set k v d) kvs []))"
    for kvs :: "(string \<times> node) list"
    by (rule fold_dict_set_distinct) simp
  then show ?thesis by (simp add: create_restriction_def dict_of_items_def)
qed

lemma restriction_edges:
  "set xs = set ys \<Longrightarrow> edges (create_restriction d xs) = edges (create_restriction d ys)"
  by (auto simp: create_restriction_def)

lemma restriction_node_set:
  assumes "set xs = set ys"
  shows "set (nodes (create_restriction d xs)) = set (nodes (create_restriction d ys))"
proof -
  have "map_of (nodes (create_restriction d xs)) = map_of (nodes (create_restriction d ys))"
    using assms by (simp only: restriction_nodes)
  then show ?thesis
    using map_of_inject_set[OF restriction_distinct[of d xs] restriction_distinct[of d ys]]
    by blast
qed

lemma apply_qem_same:
  assumes e: "edges f1 = edges f2" and n: "set (nodes f1) = set (nodes f2)"
    and d1: "distinct (map fst (nodes f1))" and d2: "distinct (map fst (nodes f2))"
    and t: "topological_sort (graph_of (edges f1)) \<noteq> None"
  shows "apply_qem_to_restriction f1 = apply_qem_to_restriction f2"
proof -
  have m: "map_of (nodes f1) = map_of (nodes f2)"
    using n map_of_inject_set[OF d1 d2] by blast
  have empty: "nodes f1 = [] \<longleftrightarrow> nodes f2 = []" using n by (metis set_empty)
  have w: "initial_weights (nodes f1) = initial_weights (nodes f2)"
    using n m by (simp add: initial_weights_def has_initial_weights_def list_all_iff)
  have k: "set (map fst (nodes f1)) = set (map fst (nodes f2))" using n by simp
  obtain supp att G where rel: "build_relations (edges f1) = (supp, att, G)"
    by (cases "build_relations (edges f1)") auto
  then have G: "G = graph_of (edges f1)" by (simp add: graph_of_def)
  from t obtain order where o: "topological_sort G = Some order" unfolding G by auto
  show ?thesis
  proof (cases "nodes f1 = []")
    case True
    with empty show ?thesis by (simp add: apply_qem_to_restriction_def)
  next
    case False
    with empty have ne2: "nodes f2 \<noteq> []" by simp
    show ?thesis
    proof (cases "initial_weights (nodes f1)")
      case (Inl err)
      moreover from Inl w have "initial_weights (nodes f2) = Inl err" by simp
      ultimately show ?thesis using False ne2 by (simp add: apply_qem_to_restriction_def)
    next
      case (Inr w_init)
      with w have "initial_weights (nodes f2) = Inr w_init" by simp
      with Inr False ne2 rel o k show ?thesis
        by (simp add: apply_qem_to_restriction_def e[symmetric])
    qed
  qed
qed

lemma restriction_acyclic:
  assumes "\<forall>vs. \<not> is_cycle (edges d) vs"
  shows "\<forall>vs. \<not> is_cycle (edges (create_restriction d xs)) vs"
proof (cases "xs = []")
  case True
  have "\<not> is_cycle [] vs" for vs
  proof (cases vs)
    case Nil
    then show ?thesis by (simp add: is_cycle_def)
  next
    case (Cons y ys)
    then show ?thesis by (cases ys) (simp_all add: is_cycle_def edge_between_def)
  qed
  with True show ?thesis by (simp add: create_restriction_def)
next
  case False
  then have "edges (create_restriction d xs)
               = filter (\<lambda>(src_id, edge_data). src_id \<in> set xs \<and> successor_id edge_data \<in> set xs)
                   (edges d)"
    by (simp add: create_restriction_def)
  with assms cycle_of_sublist show ?thesis by metis
qed

text \<open>
  Claim C10, as amended. For every debate and any two argument-id lists with the same
  underlying set, \<open>create_restriction\<close> yields the same edges and the same nodes mapping
  (the keys may come in another order), and \<open>apply_qem_to_restriction\<close> yields the same
  result whenever the restricted edges can be sorted topologically, in particular for
  every debate whose edge set has no cycle. (On a cyclic restriction the nodes are taken
  in the order of the argument list, and the weights depend on that order.)
\<close>

theorem restriction_depends_on_set:
  assumes "set xs = set ys"
  shows "edges (create_restriction d xs) = edges (create_restriction d ys)
       \<and> map_of (nodes (create_restriction d xs)) = map_of (nodes (create_restriction d ys))
       \<and> (topological_sort (graph_of (edges (create_restriction d xs))) \<noteq> None \<longrightarrow>
            apply_qem_to_restriction (create_restriction d xs)
              = apply_qem_to_restriction (create_restriction d ys))
       \<and> ((\<forall>vs. \<not> is_cycle (edges d) vs) \<longrightarrow>
            apply_qem_to_restriction (create_restriction d xs)
              = apply_qem_to_restriction (create_restriction d ys))"
proof -
  have 1: "edges (create_restriction d xs) = edges (create_restriction d ys)"
    by (rule restriction_edges[OF assms])
  have 2: "map_of (nodes (create_restriction d xs)) = map_of (nodes (create_restriction d ys))"
    using assms by (simp only: restriction_nodes)
  have 3: "apply_qem_to_restriction (create_restriction d xs)
              = apply_qem_to_restriction (create_restriction d ys)"
    if "topological_sort (graph_of (edges (create_restriction d xs))) \<noteq> None"
    by (rule apply_qem_same[OF 1 restriction_node_set[OF assms] restriction_distinct
          restriction_distinct that])
  have 4: "apply_qem_to_restriction (create_restriction d xs)
              = apply_qem_to_restriction (create_restriction d ys)"
    if "\<forall>vs. \<not> is_cycle (edges d) vs"
    using 3 restriction_acyclic[OF that, of xs] sortable_iff_acyclic by blast
  from 1 2 3 4 show ?thesis by blast
qed

theorem restriction_depends_on_set_witness:
  "set [''A'', ''target'', ''B'', ''A''] = set [''B'', ''A'', ''target'']
   \<and> edges (create_restriction chain_debate [''A'', ''target'', ''B'', ''A''])
       = edges (create_restriction chain_debate [''B'', ''A'', ''target''])
   \<and> map_of (nodes (create_restriction chain_debate [''A'', ''target'', ''B'', ''A'']))
       = map_of (nodes (create_restriction chain_debate [''B'', ''A'', ''target'']))
   \<and> topological_sort (graph_of (edges (create_restriction chain_debate
         [''A'', ''target'', ''B'', ''A'']))) \<noteq> None
   \<and> (\<forall>vs. \<not> is_cycle (edges chain_debate) vs)
   \<and> apply_qem_to_restriction (create_restriction chain_debate [''A'', ''target'', ''B'', ''A''])
       = apply_qem_to_restriction (create_restriction chain_debate [''B'', ''A'', ''target''])"
proof -
  have s: "set [''A'', ''target'', ''B'', ''A''] = set [''B'', ''A'', ''target'']" by auto
  have t: "topological_sort (graph_of (edges (create_restriction chain_debate
         [''A'', ''target'', ''B'', ''A'']))) \<noteq> None" by code_simp
  have "topological_sort (graph_of (edges chain_debate)) \<noteq> None" by code_simp
  then have a: "\<forall>vs. \<not> is_cycle (edges chain_debate) vs" by (rule sortable_iff_acyclic[THEN iffD1])
  from restriction_depends_on_set[OF s, of chain_debate] s t a show ?thesis by blast
qed

theorem cyclic_restriction_depends_on_order:
  "set [''a'', ''b''] = set [''b'', ''a'']
   \<and> weight_at (apply_qem_to_restriction (create_restriction cyclic_debate [''a'', ''b''])) ''a''
       = Inr (Some 0.5)
   \<and> weight_at (apply_qem_to_restriction (create_restriction cyclic_debate [''b'', ''a''])) ''a''
       = Inr (Some 0.6)"
proof -
  have "set [''a'', ''b''] = set [''b'', ''a'']" by auto
  moreover have "weight_at (apply_qem_to_restriction (create_restriction cyclic_debate
      [''a'', ''b''])) ''a'' = Inr (Some 0.5)" by code_simp
  moreover have "weight_at (apply_qem_to_restriction (create_restriction cyclic_debate
      [''b'', ''a''])) ''a'' = Inr (Some 0.6)" by code_simp
  ultimately show ?thesis by blast
qed

section \<open>Restrictions of a well-formed debate propagate\<close>

lemma restriction_keys:
  "set (map fst (nodes (create_restriction d args))) = set args \<inter> set (map fst (nodes d))"
proof -
  have "set (map fst (nodes (create_restriction d args)))
          = dom (map_of (nodes (create_restriction d args)))"
    by (simp add: dom_map_of_conv_image_fst)
  also have "\<dots> = set args \<inter> dom (map_of (nodes d))"
    by (simp only: restriction_nodes dom_restrict) blast
  also have "\<dots> = set args \<inter> set (map fst (nodes d))"
    by (simp add: dom_map_of_conv_image_fst)
  finally show ?thesis .
qed

lemma restriction_has_initial_weights:
  assumes "has_initial_weights (nodes d)"
  shows "has_initial_weights (nodes (create_restriction d args))"
proof -
  have "initial_weight nd \<noteq> None" if "(k, nd) \<in> set (nodes (create_restriction d args))" for k nd
  proof -
    from that have "map_of (nodes (create_restriction d args)) k = Some nd"
      using restriction_distinct[of d args] by simp
    then have "map_of (nodes d) k = Some nd"
      by (simp add: restriction_nodes restrict_map_def split: if_splits)
    then have "(k, nd) \<in> set (nodes d)" by (rule map_of_SomeD)
    with assms show ?thesis by (auto simp: has_initial_weights_def list_all_iff)
  qed
  then show ?thesis by (auto simp: has_initial_weights_def list_all_iff)
qed

lemma restriction_graph_nodes:
  assumes "well_formed d"
  shows "set (g_nodes (graph_of (edges (create_restriction d args))))
           \<subseteq> set (map fst (nodes (create_restriction d args)))"
proof
  fix n assume "n \<in> set (g_nodes (graph_of (edges (create_restriction d args))))"
  then obtain s e where se: "(s, e) \<in> set (edges (create_restriction d args))"
    and n: "n = s \<or> n = successor_id e"
    by (auto simp: graph_of_nodes)
  from se have "args \<noteq> []" by (auto simp: create_restriction_def split: if_splits)
  with se have in_d: "(s, e) \<in> set (edges d)" and sa: "s \<in> set args"
    and ea: "successor_id e \<in> set args"
    by (auto simp: create_restriction_def)
  from assms in_d have "s \<in> set (map fst (nodes d))" "successor_id e \<in> set (map fst (nodes d))"
    by (auto simp: well_formed_def list_all_iff)
  with sa ea n show "n \<in> set (map fst (nodes (create_restriction d args)))"
    unfolding restriction_keys by auto
qed

lemma restriction_propagates:
  assumes "well_formed d"
  shows "\<exists>m. apply_qem_to_restriction (create_restriction d args) = Inr m"
proof -
  let ?fw = "create_restriction d args"
  let ?w = "\<lambda>nid. Option.bind (map_of (nodes ?fw) nid) initial_weight"
  have hw: "has_initial_weights (nodes ?fw)"
    using assms by (intro restriction_has_initial_weights) (simp add: well_formed_def)
  have defined: "\<forall>n\<in>set (map fst (nodes ?fw)). ?w n \<noteq> None"
    using initial_weights_defined[OF hw] by blast
  obtain supp att G where rel: "build_relations (edges ?fw) = (supp, att, G)"
    by (cases "build_relations (edges ?fw)") auto
  then have G: "G = graph_of (edges ?fw)" by (simp add: graph_of_def)
  have "\<exists>m. qem_loop (case topological_sort G of None \<Rightarrow> map fst (nodes ?fw) | Some order \<Rightarrow> order)
               supp att ?w Map.empty = Inr m"
  proof (cases "topological_sort G")
    case None
    with qem_loop_total[OF defined, of supp att Map.empty] show ?thesis by auto
  next
    case (Some order)
    then have "set order = set (g_nodes G)"
      using topo_loop_nodes[of "g_edges G" "g_nodes G" "[]" order] by (simp add: topological_sort_def)
    with restriction_graph_nodes[OF assms, of args] defined
    have "\<forall>n\<in>set order. ?w n \<noteq> None" unfolding G by blast
    with qem_loop_total[OF this, of supp att Map.empty] Some show ?thesis by auto
  qed
  then show ?thesis
    by (auto simp: apply_qem_to_restriction_def initial_weights_ok[OF hw] rel Let_def)
qed

lemma target_satisfied_strengthens:
  assumes "\<And>args. \<exists>final. propagate (create_restriction d args) = Inr final"
  shows "target_satisfied_with propagate (\<lambda>w1 w0. w1 > w0) d target w0 args
           = Inr (strengthens propagate d target w0 args)"
proof -
  from assms[of args] obtain final where "propagate (create_restriction d args) = Inr final"
    by blast
  then show ?thesis
    by (simp add: target_satisfied_with_def strengthens_def split: option.splits)
qed

lemma listed_category:
  "listed r heuristic name branches_abv
     = branches_abv (category_of (heuristic_data_of r heuristic) name)"
  "listed r heuristic name branches = branches (category_of (heuristic_data_of r heuristic) name)"
  "listed r heuristic name ranking_abv
     = ranking_abv (category_of (heuristic_data_of r heuristic) name)"
  "listed r heuristic name ranking = ranking (category_of (heuristic_data_of r heuristic) name)"
  by (simp_all add: listed_def heuristic_data_of_def category_of_def split: option.splits)

section \<open>The incremental loop\<close>

lemma find_map_comp: "List.find P (map f xs) = map_option f (List.find (\<lambda>x. P (f x)) xs)"
  by (induction xs) simp_all

lemma prefixes_Nil: "prefixes [] = []"
  by (simp add: prefixes_def)

lemma prefixes_Cons: "prefixes (x # xs) = [x] # map ((#) x) (prefixes xs)"
proof -
  have "[1..<Suc (Suc (length xs))] = 1 # map Suc [1..<Suc (length xs)]"
    by (simp add: map_Suc_upt upt_conv_Cons del: upt_Suc)
  then show ?thesis by (simp add: prefixes_def del: upt_Suc)
qed

text \<open>The outcome of the loop, without the list of tested restrictions.\<close>

lemma add_branches_find:
  assumes "\<And>args. test args = Inr (passes args)"
  shows "\<exists>tested'. add_branches test mk_args ranked abvs added_args added_abv tested =
           Inr (case List.find (\<lambda>p. passes (mk_args (added_args @ concat p))) (prefixes ranked) of
                  Some p \<Rightarrow> (True, added_args @ concat p, added_abv @ take (length p) abvs, tested')
                | None \<Rightarrow> (False, added_args @ concat ranked,
                            added_abv @ take (length ranked) abvs, tested'))"
proof (induction ranked arbitrary: abvs added_args added_abv tested)
  case Nil
  show ?case by (simp add: prefixes_Nil)
next
  case (Cons branch_args rest)
  show ?case
  proof (cases "passes (mk_args (added_args @ branch_args))")
    case True
    then show ?thesis by (simp add: assms prefixes_Cons Let_def)
  next
    case False
    from Cons.IH[of "drop 1 abvs" "added_args @ branch_args" "added_abv @ take 1 abvs"
        "tested @ [mk_args (added_args @ branch_args)]"]
    obtain tested' where step:
      "add_branches test mk_args rest (drop 1 abvs) (added_args @ branch_args)
         (added_abv @ take 1 abvs) (tested @ [mk_args (added_args @ branch_args)]) =
       Inr (case List.find (\<lambda>p. passes (mk_args ((added_args @ branch_args) @ concat p)))
                  (prefixes rest) of
              Some p \<Rightarrow> (True, (added_args @ branch_args) @ concat p,
                         (added_abv @ take 1 abvs) @ take (length p) (drop 1 abvs), tested')
            | None \<Rightarrow> (False, (added_args @ branch_args) @ concat rest,
                        (added_abv @ take 1 abvs) @ take (length rest) (drop 1 abvs), tested'))"
      by blast
    have abv: "take (Suc 0) abvs @ take n (drop (Suc 0) abvs) = take (Suc n) abvs" for n
      by (cases abvs) simp_all
    have "add_branches test mk_args (branch_args # rest) abvs added_args added_abv tested =
          Inr (case List.find (\<lambda>p. passes (mk_args (added_args @ concat p)))
                     (prefixes (branch_args # rest)) of
                 Some p \<Rightarrow> (True, added_args @ concat p, added_abv @ take (length p) abvs, tested')
               | None \<Rightarrow> (False, added_args @ concat (branch_args # rest),
                           added_abv @ take (length (branch_args # rest)) abvs, tested'))"
      using False step
      by (simp add: assms prefixes_Cons Let_def find_map_comp abv split: option.splits)
    then show ?thesis by blast
  qed
qed


lemma add_branches_found:
  assumes "\<And>args. test args = Inr (passes args)"
    and "List.find (\<lambda>p. passes (mk_args (added_args @ concat p))) (prefixes ranked) = Some p"
  shows "\<exists>tested'. add_branches test mk_args ranked abvs added_args added_abv tested =
           Inr (True, added_args @ concat p, added_abv @ take (length p) abvs, tested')"
  using add_branches_find[of test passes mk_args ranked abvs added_args added_abv tested, OF assms(1)]
    assms(2) by simp

lemma add_branches_exhausted:
  assumes "\<And>args. test args = Inr (passes args)"
    and "List.find (\<lambda>p. passes (mk_args (added_args @ concat p))) (prefixes ranked) = None"
  shows "\<exists>tested'. add_branches test mk_args ranked abvs added_args added_abv tested =
           Inr (False, added_args @ concat ranked, added_abv @ take (length ranked) abvs, tested')"
  using add_branches_find[of test passes mk_args ranked abvs added_args added_abv tested, OF assms(1)]
    assms(2) by simp

lemma constructive_search_strengthening:
  assumes total: "\<And>args. \<exists>final. propagate (create_restriction d args) = Inr final"
  shows "map_sum id fst (constructive_search_with propagate (\<lambda>w1 w0. w1 > w0) unw pro cw d target w0)
           = Inr (constructive_strengthening_spec (strengthens propagate d target w0)
                    (branches_abv unw) (branches unw) (ranking_abv pro) (ranking pro)
                    (ranking_abv cw) (ranking cw) target)"
proof -
  define base where "base = concat (branches unw)"
  define passes' where "passes' = strengthens propagate d target w0"
  define test where "test = target_satisfied_with propagate (\<lambda>w1 w0. w1 > w0) d target w0"
  define passes where "passes = (\<lambda>added. passes' (base @ added @ [target]))"
  have test: "test args = Inr (passes' args)" for args
    unfolding test_def passes'_def
    by (rule target_satisfied_strengthens[of propagate d, OF total])
  define first where "first = List.find (\<lambda>p. passes (concat p)) (prefixes (ranking pro))"
  define second where "second = List.find (\<lambda>q. passes (concat (ranking pro) @ concat q))
                                  (prefixes (ranking cw))"
  have spec: "constructive_strengthening_spec (strengthens propagate d target w0)
                (branches_abv unw) (branches unw) (ranking_abv pro) (ranking pro)
                (ranking_abv cw) (ranking cw) target =
     (if passes []
      then \<lparr>success = True, explanation_abv = [branches_abv unw, []], explanation_arg = [base, []]\<rparr>
      else (case first of
              Some p \<Rightarrow> \<lparr>success = True,
                          explanation_abv = [branches_abv unw, take (length p) (ranking_abv pro)],
                          explanation_arg = [base, concat p]\<rparr>
            | None \<Rightarrow>
                (case second of
                   Some q \<Rightarrow> \<lparr>success = True,
                      explanation_abv = [branches_abv unw,
                         take (length (ranking pro)) (ranking_abv pro),
                         take (length q) (ranking_abv cw)],
                      explanation_arg = [base, concat (ranking pro), concat q]\<rparr>
                 | None \<Rightarrow> \<lparr>success = False, explanation_abv = [], explanation_arg = []\<rparr>)))"
    unfolding constructive_strengthening_spec_def first_sufficient_prefix_def Let_def
      base_def passes_def passes'_def first_def second_def ..
  have unfold: "constructive_search_with propagate (\<lambda>w1 w0. w1 > w0) unw pro cw d target w0 =
     (if passes []
      then Inr (\<lparr>success = True, explanation_abv = [branches_abv unw, []],
                 explanation_arg = [base, []]\<rparr>, [base @ [target]])
      else (case add_branches test (\<lambda>added. base @ added @ [target])
                       (ranking pro) (ranking_abv pro) [] [] [base @ [target]] of
                  Inl err \<Rightarrow> Inl err
                | Inr (found, added_args, added_abv, tested) \<Rightarrow>
                    if found
                    then Inr (\<lparr>success = True,
                               explanation_abv = [branches_abv unw, added_abv],
                               explanation_arg = [base, added_args]\<rparr>, tested)
                    else
                      (case add_branches test
                              (\<lambda>added. base @ added_args @ added @ [target])
                              (ranking cw) (ranking_abv cw) [] [] tested of
                         Inl err \<Rightarrow> Inl err
                       | Inr (found2, added_args2, added_abv2, tested2) \<Rightarrow>
                           if found2
                           then Inr (\<lparr>success = True,
                                      explanation_abv =
                                        [branches_abv unw, added_abv, added_abv2],
                                      explanation_arg = [base, added_args, added_args2]\<rparr>,
                                     tested2)
                           else Inr (no_explanation, tested2))))"
    using test[of "base @ [target]"]
    by (simp add: constructive_search_with_def Let_def get_branch_arguments_def base_def[symmetric]
          test_def[symmetric] passes_def)
  show ?thesis
  proof (cases "passes []")
    case True
    then show ?thesis by (simp add: unfold spec)
  next
    case np: False
    show ?thesis
    proof (cases first)
      case (Some p)
      then have "List.find (\<lambda>p. passes' (base @ ([] @ concat p) @ [target])) (prefixes (ranking pro))
                   = Some p" by (simp add: first_def passes_def)
      from add_branches_found[of test passes' "\<lambda>added. base @ added @ [target]" "[]" "ranking pro" p,
          OF test this, of "ranking_abv pro" "[]" "[base @ [target]]"]
      obtain tested1 where
        "add_branches test (\<lambda>added. base @ added @ [target]) (ranking pro) (ranking_abv pro) [] []
           [base @ [target]] = Inr (True, concat p, take (length p) (ranking_abv pro), tested1)"
        by auto
      with np Some show ?thesis by (simp add: unfold spec)
    next
      case n1: None
      then have "List.find (\<lambda>p. passes' (base @ ([] @ concat p) @ [target])) (prefixes (ranking pro))
                   = None" by (simp add: first_def passes_def)
      from add_branches_exhausted[of test passes' "\<lambda>added. base @ added @ [target]" "[]"
          "ranking pro", OF test this, of "ranking_abv pro" "[]" "[base @ [target]]"]
      obtain tested1 where loop1:
        "add_branches test (\<lambda>added. base @ added @ [target]) (ranking pro) (ranking_abv pro) [] []
           [base @ [target]]
         = Inr (False, concat (ranking pro), take (length (ranking pro)) (ranking_abv pro), tested1)"
        by auto
      show ?thesis
      proof (cases second)
        case (Some q)
        then have "List.find (\<lambda>q. passes' (base @ concat (ranking pro) @ ([] @ concat q) @ [target]))
                     (prefixes (ranking cw)) = Some q" by (simp add: second_def passes_def)
        from add_branches_found[of test passes'
            "\<lambda>added. base @ concat (ranking pro) @ added @ [target]" "[]" "ranking cw" q,
            OF test this, of "ranking_abv cw" "[]" tested1]
        obtain tested2 where
          "add_branches test (\<lambda>added. base @ concat (ranking pro) @ added @ [target]) (ranking cw)
             (ranking_abv cw) [] [] tested1
           = Inr (True, concat q, take (length q) (ranking_abv cw), tested2)"
          by auto
        with np n1 loop1 Some show ?thesis by (simp add: unfold spec)
      next
        case None
        then have "List.find (\<lambda>q. passes' (base @ concat (ranking pro) @ ([] @ concat q) @ [target]))
                     (prefixes (ranking cw)) = None" by (simp add: second_def passes_def)
        from add_branches_exhausted[of test passes'
            "\<lambda>added. base @ concat (ranking pro) @ added @ [target]" "[]" "ranking cw",
            OF test this, of "ranking_abv cw" "[]" tested1]
        obtain tested2 where
          "add_branches test (\<lambda>added. base @ concat (ranking pro) @ added @ [target]) (ranking cw)
             (ranking_abv cw) [] [] tested1
           = Inr (False, concat (ranking cw), take (length (ranking cw)) (ranking_abv cw), tested2)"
          by auto
        with np n1 loop1 None show ?thesis by (simp add: unfold spec no_explanation_def)
      qed
    qed
  qed
qed

section \<open>The staged and the ranked example\<close>

lemma staged_enrich: "enrich_with_final staged_raw = Inr staged_debate"
  by (simp add: enrich_with_final_def staged_raw_def staged_debate_def fin_node_def eval_defs
        topo_loop.simps del: not_None_eq)

lemma staged_branches:
  "identify_branches staged_debate ''t'' =
     \<lparr>pro_branches = [[''s'']], con_branches = [[''a'', ''x'']],
      unweakened_pro_branches = [[''s'']], unweakened_con_branches = [[''a'']],
      pro_weakening_sub_branches = [], con_weakening_sub_branches = [[''x'']]\<rparr>"
  by code_simp

lemma staged_direction: "determine_direction ''t'' (nodes staged_debate) = ''strengthening''"
  by (simp add: determine_direction_def staged_debate_def fin_node_def)

lemma staged_constructive:
  "generate_constructive_explanation_run staged_rankings staged_debate ''weak to strong''
     = Inr (\<lparr>success = True,
             explanation_abv = [[''UnWCb1''], [''Pb1''], [''CWb1'']],
             explanation_arg = [[''a''], [''s''], [''x'']]\<rparr>,
            [[''a'', ''t''], [''a'', ''s'', ''t''], [''a'', ''s'', ''x'', ''t'']])"
  by code_simp

lemma ranked_enrich: "enrich_with_final ranked_raw = Inr ranked_debate"
  by (simp add: enrich_with_final_def ranked_raw_def ranked_debate_def fin_node_def eval_defs
        topo_loop.simps del: not_None_eq)

lemma ranked_branches:
  "identify_branches ranked_debate ''t'' =
     \<lparr>pro_branches = [[''s1''], [''s2'']], con_branches = [[''a'']],
      unweakened_pro_branches = [[''s1''], [''s2'']], unweakened_con_branches = [[''a'']],
      pro_weakening_sub_branches = [], con_weakening_sub_branches = []\<rparr>"
  by code_simp

lemma ranked_direction: "determine_direction ''t'' (nodes ranked_debate) = ''strengthening''"
  by (simp add: determine_direction_def ranked_debate_def fin_node_def)

lemma ranked_constructive:
  "generate_constructive_explanation_run ranked_rankings ranked_debate ''strong to weak''
     = Inr (\<lparr>success = True,
             explanation_abv = [[''UnWCb1''], [''Pb2'']],
             explanation_arg = [[''a''], [''s2'']]\<rparr>,
            [[''a'', ''t''], [''a'', ''s2'', ''t'']])"
  "generate_constructive_explanation_run ranked_rankings ranked_debate ''weak to strong''
     = Inr (\<lparr>success = True,
             explanation_abv = [[''UnWCb1''], [''Pb1'', ''Pb2'']],
             explanation_arg = [[''a''], [''s1'', ''s2'']]\<rparr>,
            [[''a'', ''t''], [''a'', ''s1'', ''t''], [''a'', ''s1'', ''s2'', ''t'']])"
  by code_simp+

lemma balanced_as_strengthening:
  "generate_constructive_explanation_run (balanced_rankings\<lparr>direction := ''strengthening''\<rparr>)
     balanced_debate ''small to large''
     = Inr (no_explanation, [[''a'', ''t''], [''a'', ''s'', ''t'']])"
  by code_simp

text \<open>
  Claim C5 (constructive search, strengthening). For rankings whose direction is
  \<open>strengthening\<close>, a target that is a node with an initial weight, and a propagation that
  returns on every restriction of the debate, \<open>generate_constructive_explanation\<close> returns
  a result and never an error, and that result is the one the specification describes:
  with the base of all unweakened con-branch arguments and the target, success with an
  empty addition when the base already strengthens the target; otherwise success at the
  first pro-branch, in ranked order, whose cumulative addition strengthens the target;
  otherwise, on top of all pro-branches, success at the first con-weakening branch, in
  ranked order, that does; otherwise the failure record with \<open>success = False\<close>. The
  lists of the specification are read from the rankings directly: the column \<open>branches\<close>
  of the unweakened con-branches, the column \<open>ranking\<close> of the pro-branches and of the
  con-weakening branches. This holds for every propagation, hence whatever the float
  arithmetic of \<open>apply_qem_to_restriction\<close> makes of a sum such as \<open>0.1 + 0.2 - 0.3\<close>;
  and \<open>apply_qem_to_restriction\<close> returns on every restriction of a well-formed debate.
\<close>

theorem constructive_strengthening_refines_spec:
  "(direction r = ''strengthening''
      \<and> map_of (nodes d) (t_id r) = Some target_node
      \<and> initial_weight target_node = Some w0
      \<and> (\<forall>args. \<exists>final. propagate (create_restriction d args) = Inr final)
    \<longrightarrow> generate_constructive_explanation_with propagate r d heuristic =
           Inr (constructive_strengthening_spec (strengthens propagate d (t_id r) w0)
                  (listed r heuristic ''unweakened con-branches'' branches_abv)
                  (listed r heuristic ''unweakened con-branches'' branches)
                  (listed r heuristic ''pro-branches'' ranking_abv)
                  (listed r heuristic ''pro-branches'' ranking)
                  (listed r heuristic ''con-weakening branches'' ranking_abv)
                  (listed r heuristic ''con-weakening branches'' ranking)
                  (t_id r)))
   \<and> (well_formed d
        \<longrightarrow> (\<forall>args. \<exists>final. apply_qem_to_restriction (create_restriction d args) = Inr final))"
proof (intro conjI impI allI)
  assume a: "direction r = ''strengthening''
      \<and> map_of (nodes d) (t_id r) = Some target_node
      \<and> initial_weight target_node = Some w0
      \<and> (\<forall>args. \<exists>final. propagate (create_restriction d args) = Inr final)"
  then have total: "\<exists>final. propagate (create_restriction d args) = Inr final" for args
    by blast
  from a constructive_search_strengthening[of propagate d, OF total]
  show "generate_constructive_explanation_with propagate r d heuristic =
           Inr (constructive_strengthening_spec (strengthens propagate d (t_id r) w0)
                  (listed r heuristic ''unweakened con-branches'' branches_abv)
                  (listed r heuristic ''unweakened con-branches'' branches)
                  (listed r heuristic ''pro-branches'' ranking_abv)
                  (listed r heuristic ''pro-branches'' ranking)
                  (listed r heuristic ''con-weakening branches'' ranking_abv)
                  (listed r heuristic ''con-weakening branches'' ranking)
                  (t_id r))"
    by (simp add: generate_constructive_explanation_with_def
          generate_constructive_explanation_run_with_def Let_def listed_category)
next
  fix args
  assume "well_formed d"
  then show "\<exists>final. apply_qem_to_restriction (create_restriction d args) = Inr final"
    by (rule restriction_propagates)
qed

theorem constructive_strengthening_refines_spec_witness:
  "direction ranked_rankings = ''strengthening''
   \<and> map_of (nodes ranked_debate) (t_id ranked_rankings) = Some (fin_node 0.5 (41 / 73))
   \<and> initial_weight (fin_node 0.5 (41 / 73)) = Some 0.5
   \<and> well_formed ranked_debate
   \<and> (\<forall>args. \<exists>final. apply_qem_to_restriction (create_restriction ranked_debate args) = Inr final)
   \<and> listed ranked_rankings ''strong to weak'' ''pro-branches'' branches = [[''s1''], [''s2'']]
   \<and> listed ranked_rankings ''strong to weak'' ''pro-branches'' ranking = [[''s2''], [''s1'']]
   \<and> generate_constructive_explanation_with apply_qem_to_restriction ranked_rankings ranked_debate
         ''strong to weak''
       = Inr \<lparr>success = True,
              explanation_abv = [[''UnWCb1''], [''Pb2'']],
              explanation_arg = [[''a''], [''s2'']]\<rparr>
   \<and> generate_constructive_explanation ranked_rankings ranked_debate ''strong to weak''
       = Inr \<lparr>success = True,
              explanation_abv = [[''UnWCb1''], [''Pb2'']],
              explanation_arg = [[''a''], [''s2'']]\<rparr>
   \<and> listed ranked_rankings ''weak to strong'' ''pro-branches'' ranking = [[''s1''], [''s2'']]
   \<and> generate_constructive_explanation_with apply_qem_to_restriction ranked_rankings ranked_debate
         ''weak to strong''
       = Inr \<lparr>success = True,
              explanation_abv = [[''UnWCb1''], [''Pb1'', ''Pb2'']],
              explanation_arg = [[''a''], [''s1'', ''s2'']]\<rparr>
   \<and> generate_constructive_explanation_with apply_qem_to_restriction staged_rankings staged_debate
         ''weak to strong''
       = Inr \<lparr>success = True,
              explanation_abv = [[''UnWCb1''], [''Pb1''], [''CWb1'']],
              explanation_arg = [[''a''], [''s''], [''x'']]\<rparr>
   \<and> generate_constructive_explanation_with apply_qem_to_restriction
         (balanced_rankings\<lparr>direction := ''strengthening''\<rparr>) balanced_debate ''small to large''
       = Inr \<lparr>success = False, explanation_abv = [], explanation_arg = []\<rparr>"
proof -
  note refines = constructive_strengthening_refines_spec[where propagate = apply_qem_to_restriction]
  have w0: "initial_weight (fin_node x y) = Some x" for x y by (simp add: fin_node_def)
  have dir: "direction ranked_rankings = ''strengthening''" by (simp add: ranked_rankings_def)
  have tn: "map_of (nodes ranked_debate) (t_id ranked_rankings) = Some (fin_node 0.5 (41 / 73))"
    by (simp add: ranked_debate_def ranked_rankings_def)
  have wf: "well_formed ranked_debate" by code_simp
  have total: "\<forall>args. \<exists>final. apply_qem_to_restriction (create_restriction ranked_debate args) = Inr final"
    using refines[of _ ranked_debate] wf by blast
  have l1: "listed ranked_rankings ''strong to weak'' ''pro-branches'' branches = [[''s1''], [''s2'']]"
    by code_simp
  have l2: "listed ranked_rankings ''strong to weak'' ''pro-branches'' ranking = [[''s2''], [''s1'']]"
    by code_simp
  have l3: "listed ranked_rankings ''weak to strong'' ''pro-branches'' ranking = [[''s1''], [''s2'']]"
    by code_simp
  have spec1: "constructive_strengthening_spec
          (strengthens apply_qem_to_restriction ranked_debate (t_id ranked_rankings) 0.5)
          (listed ranked_rankings ''strong to weak'' ''unweakened con-branches'' branches_abv)
          (listed ranked_rankings ''strong to weak'' ''unweakened con-branches'' branches)
          (listed ranked_rankings ''strong to weak'' ''pro-branches'' ranking_abv)
          (listed ranked_rankings ''strong to weak'' ''pro-branches'' ranking)
          (listed ranked_rankings ''strong to weak'' ''con-weakening branches'' ranking_abv)
          (listed ranked_rankings ''strong to weak'' ''con-weakening branches'' ranking)
          (t_id ranked_rankings)
       = \<lparr>success = True,
          explanation_abv = [[''UnWCb1''], [''Pb2'']],
          explanation_arg = [[''a''], [''s2'']]\<rparr>"
    by code_simp
  have spec2: "constructive_strengthening_spec
          (strengthens apply_qem_to_restriction ranked_debate (t_id ranked_rankings) 0.5)
          (listed ranked_rankings ''weak to strong'' ''unweakened con-branches'' branches_abv)
          (listed ranked_rankings ''weak to strong'' ''unweakened con-branches'' branches)
          (listed ranked_rankings ''weak to strong'' ''pro-branches'' ranking_abv)
          (listed ranked_rankings ''weak to strong'' ''pro-branches'' ranking)
          (listed ranked_rankings ''weak to strong'' ''con-weakening branches'' ranking_abv)
          (listed ranked_rankings ''weak to strong'' ''con-weakening branches'' ranking)
          (t_id ranked_rankings)
       = \<lparr>success = True,
          explanation_abv = [[''UnWCb1''], [''Pb1'', ''Pb2'']],
          explanation_arg = [[''a''], [''s1'', ''s2'']]\<rparr>"
    by code_simp
  have r1: "generate_constructive_explanation_with apply_qem_to_restriction ranked_rankings
              ranked_debate ''strong to weak''
       = Inr \<lparr>success = True,
              explanation_abv = [[''UnWCb1''], [''Pb2'']],
              explanation_arg = [[''a''], [''s2'']]\<rparr>"
    using refines[of ranked_rankings ranked_debate "fin_node 0.5 (41 / 73)" "0.5"
        "''strong to weak''"] dir tn w0 total
    unfolding spec1 by blast
  have r2: "generate_constructive_explanation_with apply_qem_to_restriction ranked_rankings
              ranked_debate ''weak to strong''
       = Inr \<lparr>success = True,
              explanation_abv = [[''UnWCb1''], [''Pb1'', ''Pb2'']],
              explanation_arg = [[''a''], [''s1'', ''s2'']]\<rparr>"
    using refines[of ranked_rankings ranked_debate "fin_node 0.5 (41 / 73)" "0.5"
        "''weak to strong''"] dir tn w0 total
    unfolding spec2 by blast
  have code1: "generate_constructive_explanation ranked_rankings ranked_debate ''strong to weak''
       = Inr \<lparr>success = True,
              explanation_abv = [[''UnWCb1''], [''Pb2'']],
              explanation_arg = [[''a''], [''s2'']]\<rparr>"
    by (simp add: generate_constructive_explanation_def ranked_constructive)
  have sdir: "direction staged_rankings = ''strengthening''" by (simp add: staged_rankings_def)
  have stn: "map_of (nodes staged_debate) (t_id staged_rankings) = Some (fin_node 0.5 (1251 / 2501))"
    by (simp add: staged_debate_def staged_rankings_def)
  have swf: "well_formed staged_debate" by code_simp
  have stotal: "\<forall>args. \<exists>final. apply_qem_to_restriction (create_restriction staged_debate args) = Inr final"
    using refines[of _ staged_debate] swf by blast
  have spec3: "constructive_strengthening_spec
          (strengthens apply_qem_to_restriction staged_debate (t_id staged_rankings) 0.5)
          (listed staged_rankings ''weak to strong'' ''unweakened con-branches'' branches_abv)
          (listed staged_rankings ''weak to strong'' ''unweakened con-branches'' branches)
          (listed staged_rankings ''weak to strong'' ''pro-branches'' ranking_abv)
          (listed staged_rankings ''weak to strong'' ''pro-branches'' ranking)
          (listed staged_rankings ''weak to strong'' ''con-weakening branches'' ranking_abv)
          (listed staged_rankings ''weak to strong'' ''con-weakening branches'' ranking)
          (t_id staged_rankings)
       = \<lparr>success = True,
          explanation_abv = [[''UnWCb1''], [''Pb1''], [''CWb1'']],
          explanation_arg = [[''a''], [''s''], [''x'']]\<rparr>"
    by code_simp
  have r3: "generate_constructive_explanation_with apply_qem_to_restriction staged_rankings
              staged_debate ''weak to strong''
       = Inr \<lparr>success = True,
              explanation_abv = [[''UnWCb1''], [''Pb1''], [''CWb1'']],
              explanation_arg = [[''a''], [''s''], [''x'']]\<rparr>"
    using refines[of staged_rankings staged_debate "fin_node 0.5 (1251 / 2501)" "0.5"
        "''weak to strong''"] sdir stn w0 stotal
    unfolding spec3 by blast
  let ?b = "balanced_rankings\<lparr>direction := ''strengthening''\<rparr>"
  have bdir: "direction ?b = ''strengthening''" by simp
  have btn: "map_of (nodes balanced_debate) (t_id ?b) = Some (fin_node 0.5 0.5)"
    by (simp add: balanced_debate_def balanced_rankings_def)
  have bwf: "well_formed balanced_debate" by code_simp
  have btotal: "\<forall>args. \<exists>final. apply_qem_to_restriction (create_restriction balanced_debate args) = Inr final"
    using refines[of _ balanced_debate] bwf by blast
  have spec4: "constructive_strengthening_spec
          (strengthens apply_qem_to_restriction balanced_debate (t_id ?b) 0.5)
          (listed ?b ''small to large'' ''unweakened con-branches'' branches_abv)
          (listed ?b ''small to large'' ''unweakened con-branches'' branches)
          (listed ?b ''small to large'' ''pro-branches'' ranking_abv)
          (listed ?b ''small to large'' ''pro-branches'' ranking)
          (listed ?b ''small to large'' ''con-weakening branches'' ranking_abv)
          (listed ?b ''small to large'' ''con-weakening branches'' ranking)
          (t_id ?b)
       = \<lparr>success = False, explanation_abv = [], explanation_arg = []\<rparr>"
    by code_simp
  have r4: "generate_constructive_explanation_with apply_qem_to_restriction ?b balanced_debate
              ''small to large''
       = Inr \<lparr>success = False, explanation_abv = [], explanation_arg = []\<rparr>"
    using refines[of ?b balanced_debate "fin_node 0.5 0.5" "0.5" "''small to large''"]
      bdir btn w0 btotal
    unfolding spec4 by blast
  from dir tn w0[of "0.5" "41 / 73"] wf total l1 l2 l3 r1 r2 r3 r4 code1 show ?thesis by blast
qed


end
